theory Spec2Isabelle
  imports Complex_Main "HOL-Library.Monad_Syntax"
begin

section \<open>Errors raised by the library\<close>

text \<open>
  The JavaScript throws plain \<open>Error\<close> objects that differ only in their message. Each
  \<open>throw\<close> site of the modelled functions is one constructor, named after the failure
  it reports; the data a message interpolates is carried as arguments.
\<close>

datatype error =
    AmbiguousCombinationSize "nat list"
      \<comment> \<open>\<open>Ambiguous input sizes: unable to determine how to combine inputs of lengths ...\<close>\<close>
  | InvalidTimeframeFormat
      \<comment> \<open>\<open>Invalid timeframe format: ... Expected format: '<date> <offset>' or '<date> <date>'.\<close>\<close>
  | CouldNotProcessTimeframe
      \<comment> \<open>\<open>Could not process timeframe: ...\<close>\<close>
  | DateDifferenceExceeds7Days
      \<comment> \<open>\<open>Date difference cannot exceed 7 days for format with hours: ...\<close>\<close>
  | OffsetExceeds7Days
      \<comment> \<open>\<open>Offset cannot exceed 7 days for format with time: ...\<close>\<close>
  | InvalidUnit
      \<comment> \<open>Luxon's \<open>InvalidUnitError\<close>, thrown when a duration names no known unit\<close>
  | TypeError
      \<comment> \<open>the runtime's \<open>TypeError\<close>: destructuring \<open>null\<close>, a property of \<open>undefined\<close>\<close>
  | DifferentResolutions "(string \<times> int option \<times> string \<times> string) list"
      \<comment> \<open>\<open>Error: Different resolutions detected for the timeframes:\<close> followed by one line
         per element: timeframe, delta (milliseconds, \<open>None\<close> when invalid), resolution, range\<close>
  | InvalidResponse nat "nat list"
      \<comment> \<open>\<open>Invalid response: status ..., content type '...'\<close>\<close>
  | FailedToParseJSON
      \<comment> \<open>\<open>Failed to parse JSON data\<close>\<close>
  | SyntaxError
      \<comment> \<open>the runtime's \<open>SyntaxError\<close>, thrown by \<open>JSON.parse\<close>\<close>
  | RequestExhausted nat
      \<comment> \<open>\<open>Failed after ${this.maxRetries} retries\<close>, with the value of \<open>maxRetries\<close>\<close>
  | ResolutionRatioTooLarge "int option" string "int option" string
      \<comment> \<open>\<open>Error: The maximum delta ... (from timeframe ...) should be less than twice the
         minimum delta ... (from timeframe ...)\<close>: maximum, its timeframe, minimum, its timeframe\<close>

section \<open>Request encoding: \<open>Trends._encodeItems\<close>\<close>

text \<open>
  An argument of \<open>_encodeItems\<close> is either an array or any other value, which
  \<open>Array.isArray(item) ? item : [item]\<close> wraps into a one-element array.
\<close>

datatype 'a js_arg = Scalar 'a | Array "'a list"

fun coerce_list :: "'a js_arg \<Rightarrow> 'a list" where
  "coerce_list (Array xs) = xs"
| "coerce_list (Scalar x) = [x]"

text \<open>
  The remainder operator on array lengths: \<open>a % 0\<close> is \<open>NaN\<close> (here \<open>None\<close>), which is
  not \<open>=== 0\<close>.
\<close>

definition js_rem :: "nat \<Rightarrow> nat \<Rightarrow> nat option" where
  "js_rem a b = (if b = 0 then None else Some (a mod b))"

definition evenly_divides :: "nat \<Rightarrow> nat \<Rightarrow> bool" where
  \<comment> \<open>\<open>maxLen % len === 0\<close>\<close>
  "evenly_divides len maxLen = (js_rem maxLen len = Some 0)"

text \<open>
  \<open>while (arr.length < maxLen) { arr.push(...arr); }\<close>. On an empty array with
  \<open>maxLen > 0\<close> the loop never ends, so the function is partial: \<open>None\<close> is
  non-termination.
\<close>

partial_function (option) double_until :: "nat \<Rightarrow> 'a list \<Rightarrow> 'a list option" where
  "double_until maxLen arr =
     (if length arr < maxLen then double_until maxLen (arr @ arr) else Some arr)"

text \<open>Reading \<open>arr[i]\<close>: out of range it is \<open>undefined\<close> (here \<open>None\<close>).\<close>

definition js_index :: "'a list \<Rightarrow> nat \<Rightarrow> 'a option" where
  "js_index arr i = (if i < length arr then Some (arr ! i) else None)"

record ('k, 't, 'g) comparison_item =
  keyword :: "'k option"
  time :: "'t option"
  geo :: "'g option"

definition build_items ::
  "'k list \<Rightarrow> 't list \<Rightarrow> 'g list \<Rightarrow> ('k, 't, 'g) comparison_item list" where
  \<comment> \<open>\<open>data[0].map((_, i) => ({keyword: data[0][i], time: data[1][i], geo: data[2][i]}))\<close>\<close>
  "build_items d0 d1 d2 =
     map (\<lambda>i. \<lparr>keyword = js_index d0 i, time = js_index d1 i, geo = js_index d2 i\<rparr>)
       [0..<length d0]"

definition encodeItems ::
  "'k js_arg \<Rightarrow> 't js_arg \<Rightarrow> 'g js_arg \<Rightarrow>
     (error + ('k, 't, 'g) comparison_item list) option" where
  "encodeItems keywords timeframe geo_arg =
     (let d0 = coerce_list keywords; d1 = coerce_list timeframe; d2 = coerce_list geo_arg;
          lengths = [length d0, length d1, length d2];
          maxLen = max (length d0) (max (length d1) (length d2))
      in if \<not> list_all (\<lambda>len. evenly_divides len maxLen) lengths
         then Some (Inl (AmbiguousCombinationSize lengths))
         else do {
           e0 \<leftarrow> double_until maxLen d0;
           e1 \<leftarrow> double_until maxLen d1;
           e2 \<leftarrow> double_until maxLen d2;
           Some (Inr (build_items e0 e1 e2))
         })"

text \<open>
  What the doubling loop computes, in closed form: \<open>2 ^ k\<close> copies of the array, for the
  least \<open>k\<close> that reaches \<open>maxLen\<close>.
\<close>

definition copies :: "nat \<Rightarrow> 'a list \<Rightarrow> 'a list" where
  "copies n xs = concat (replicate n xs)"

definition doublings :: "nat \<Rightarrow> nat \<Rightarrow> nat \<Rightarrow> bool" where
  \<comment> \<open>\<open>k\<close> is the number of doublings that take length \<open>len\<close> to at least \<open>maxLen\<close>\<close>
  "doublings maxLen len k =
     (maxLen \<le> 2 ^ k * len \<and> (0 < k \<longrightarrow> 2 ^ (k - 1) * len < maxLen))"

section \<open>Text helpers\<close>

text \<open>
  JavaScript strings are modelled as \<open>string\<close>; the inputs considered are the ones whose
  characters fit in a \<open>char\<close>. Numbers that the source obtains with \<open>parseInt\<close> from a
  run of decimal digits are exact naturals here (no rounding to a double).
\<close>

definition is_digit :: "char \<Rightarrow> bool" where
  \<comment> \<open>the regular-expression class \<open>\d\<close>\<close>
  "is_digit c = (c \<in> set ''0123456789'')"

definition digit_val :: "char \<Rightarrow> nat" where
  "digit_val c = of_char c - 48"

definition parseInt :: "string \<Rightarrow> nat" where
  \<comment> \<open>\<open>parseInt\<close> on a non-empty run of decimal digits\<close>
  "parseInt ds = foldl (\<lambda>acc c. 10 * acc + digit_val c) 0 ds"

definition digit_char :: "nat \<Rightarrow> char" where
  "digit_char n = char_of (48 + n)"

fun show_nat :: "nat \<Rightarrow> string" where
  "show_nat n = (if n < 10 then [digit_char n] else show_nat (n div 10) @ [digit_char (n mod 10)])"

declare show_nat.simps [simp del]

definition padStart :: "string \<Rightarrow> nat \<Rightarrow> string" where
  \<comment> \<open>\<open>s.padStart(n, "0")\<close>\<close>
  "padStart s n = replicate (n - length s) CHR ''0'' @ s"

definition starts_with :: "'a list \<Rightarrow> 'a list \<Rightarrow> bool" where
  "starts_with pat s = (take (length pat) s = pat)"

text \<open>\<open>s.replace(pat, rep)\<close> with a string pattern: the first occurrence only.\<close>

fun replace_first :: "string \<Rightarrow> string \<Rightarrow> string \<Rightarrow> string" where
  "replace_first pat rep [] = (if pat = [] then rep else [])"
| "replace_first pat rep (c # cs) =
     (if starts_with pat (c # cs) then rep @ drop (length pat) (c # cs)
      else c # replace_first pat rep cs)"

text \<open>\<open>s.split(sep)\<close> with a one-character separator.\<close>

fun split_on :: "'a \<Rightarrow> 'a list \<Rightarrow> 'a list list" where
  "split_on sep [] = [[]]"
| "split_on sep (c # cs) =
     (if c = sep then [] # split_on sep cs
      else (case split_on sep cs of p # ps \<Rightarrow> (c # p) # ps | [] \<Rightarrow> [[c]]))"

section \<open>Calendar arithmetic of the date library\<close>

text \<open>
  The timeframe functions use Luxon's \<open>DateTime\<close>. Its behaviour is modelled for a zone
  with a fixed zero offset (UTC), the proleptic Gregorian calendar, the English locale
  (plain ASCII digits) and exact integers. A \<open>DateTime\<close> is either invalid or a calendar
  date with an hour; the source never produces minutes or smaller fields other than zero,
  apart from the clock reading, which it only formats.
\<close>

datatype datetime = InvalidDateTime | DateTime (year: int) (month: int) (day: int) (hour: int)

datatype duration = InvalidDuration | Millis int

datatype luxon_unit = Hours | Days | Months | Years

definition isLeapYear :: "int \<Rightarrow> bool" where
  "isLeapYear y = (y mod 4 = 0 \<and> (y mod 100 \<noteq> 0 \<or> y mod 400 = 0))"

definition daysInMonth :: "int \<Rightarrow> int \<Rightarrow> int" where
  \<comment> \<open>the month may lie outside 1..12; it is first carried into the year\<close>
  "daysInMonth y m =
     (let modMonth = (m - 1) mod 12 + 1; modYear = y + (m - modMonth) div 12
      in if modMonth = 2 then (if isLeapYear modYear then 29 else 28)
         else [31, 0, 31, 30, 31, 30, 31, 31, 30, 31, 30, 31] ! nat (modMonth - 1))"

definition days_from_civil :: "int \<Rightarrow> int \<Rightarrow> int \<Rightarrow> int" where
  \<comment> \<open>days since 1970-01-01 of a calendar date with month in 1..12\<close>
  "days_from_civil y m d =
     (let y' = (if m \<le> 2 then y - 1 else y);
          era = y' div 400;
          yoe = y' - era * 400;
          doy = (153 * (if m > 2 then m - 3 else m + 9) + 2) div 5 + d - 1;
          doe = yoe * 365 + yoe div 4 - yoe div 100 + doy
      in era * 146097 + doe - 719468)"

definition civil_from_days :: "int \<Rightarrow> int \<times> int \<times> int" where
  \<comment> \<open>the calendar date (year, month, day) of a day number\<close>
  "civil_from_days z =
     (let z' = z + 719468;
          era = z' div 146097;
          doe = z' - era * 146097;
          yoe = (doe - doe div 1460 + doe div 36524 - doe div 146096) div 365;
          doy = doe - (365 * yoe + yoe div 4 - yoe div 100);
          mp = (5 * doy + 2) div 153;
          d = doy - (153 * mp + 2) div 5 + 1;
          m = (if mp < 10 then mp + 3 else mp - 9);
          y = yoe + era * 400
      in (if m \<le> 2 then y + 1 else y, m, d))"

definition from_hours :: "int \<Rightarrow> datetime" where
  \<comment> \<open>the \<open>DateTime\<close> of a count of hours since the epoch\<close>
  "from_hours t =
     (case civil_from_days (t div 24) of (y, m, d) \<Rightarrow> DateTime y m d (t mod 24))"

definition to_hours :: "int \<Rightarrow> int \<Rightarrow> int \<Rightarrow> int \<Rightarrow> int" where
  \<comment> \<open>hours since the epoch; the month is carried into the year, a day or hour out of
     range carries over, as \<open>Date.UTC\<close> does\<close>
  "to_hours y m d h =
     (let modMonth = (m - 1) mod 12 + 1; modYear = y + (m - modMonth) div 12
      in (days_from_civil modYear modMonth 1 + (d - 1)) * 24 + h)"

definition fromMillis :: "int \<Rightarrow> datetime" where
  \<comment> \<open>\<open>DateTime.now().setZone('utc')\<close> for a clock reading in epoch milliseconds\<close>
  "fromMillis ms = from_hours (ms div 3600000)"

definition toMillis :: "datetime \<Rightarrow> int option" where
  "toMillis dt =
     (case dt of InvalidDateTime \<Rightarrow> None
      | DateTime y m d h \<Rightarrow> Some (to_hours y m d h * 3600000))"

text \<open>
  \<open>dt.minus({unit: count})\<close>. An invalid \<open>DateTime\<close> is returned as it is; a duration
  object whose key is not a unit (\<open>UNIT_MAP[unit]\<close> was \<open>undefined\<close>) raises. Months and
  years move the calendar fields and clamp the day to the length of the target month;
  days and hours are exact in a zone without offset changes.
\<close>

definition dt_minus :: "datetime \<Rightarrow> luxon_unit option \<Rightarrow> nat \<Rightarrow> error + datetime" where
  "dt_minus dt unit_opt n =
     (case dt of InvalidDateTime \<Rightarrow> Inr InvalidDateTime
      | DateTime y m d h \<Rightarrow>
          (case unit_opt of None \<Rightarrow> Inl InvalidUnit
           | Some Hours \<Rightarrow> Inr (from_hours (to_hours y m d h - int n))
           | Some Days \<Rightarrow> Inr (from_hours (to_hours y m (d - int n) h))
           | Some Months \<Rightarrow>
               Inr (from_hours (to_hours y (m - int n) (min d (daysInMonth y (m - int n))) h))
           | Some Years \<Rightarrow>
               Inr (from_hours (to_hours (y - int n) m (min d (daysInMonth (y - int n) m)) h))))"

definition plus_days :: "datetime \<Rightarrow> nat \<Rightarrow> datetime" where
  \<comment> \<open>\<open>dt.plus({days: n})\<close>\<close>
  "plus_days dt n =
     (case dt of InvalidDateTime \<Rightarrow> InvalidDateTime
      | DateTime y m d h \<Rightarrow> from_hours (to_hours y m (d + int n) h))"

definition startOfDay :: "datetime \<Rightarrow> datetime" where
  \<comment> \<open>\<open>dt.startOf('day')\<close>\<close>
  "startOfDay dt =
     (case dt of InvalidDateTime \<Rightarrow> InvalidDateTime | DateTime y m d h \<Rightarrow> DateTime y m d 0)"

definition dt_diff :: "datetime \<Rightarrow> datetime \<Rightarrow> duration" where
  \<comment> \<open>\<open>later.diff(earlier)\<close>, in milliseconds\<close>
  "dt_diff date2 date1 =
     (case (toMillis date2, toMillis date1) of
        (Some t2, Some t1) \<Rightarrow> Millis (t2 - t1)
      | _ \<Rightarrow> InvalidDuration)"

text \<open>Reading a duration in a unit: \<open>None\<close> is \<open>NaN\<close>, the value of an invalid duration.\<close>

definition as_milliseconds :: "duration \<Rightarrow> rat option" where
  "as_milliseconds d = (case d of InvalidDuration \<Rightarrow> None | Millis ms \<Rightarrow> Some (of_int ms))"

definition as_hours :: "duration \<Rightarrow> rat option" where
  "as_hours d = (case d of InvalidDuration \<Rightarrow> None | Millis ms \<Rightarrow> Some (of_int ms / 3600000))"

definition as_days :: "duration \<Rightarrow> rat option" where
  \<comment> \<open>\<open>later.diff(earlier, 'days').days\<close>: whole days plus the fraction of a 24-hour day\<close>
  "as_days d = (case d of InvalidDuration \<Rightarrow> None | Millis ms \<Rightarrow> Some (of_int ms / 86400000))"

text \<open>Comparisons of numbers that may be \<open>NaN\<close>: every comparison with \<open>NaN\<close> is false.\<close>

definition js_lt :: "rat option \<Rightarrow> rat option \<Rightarrow> bool" where
  "js_lt a b = (case (a, b) of (Some x, Some y) \<Rightarrow> x < y | _ \<Rightarrow> False)"

definition js_gt :: "rat option \<Rightarrow> rat option \<Rightarrow> bool" where
  "js_gt a b = (case (a, b) of (Some x, Some y) \<Rightarrow> x > y | _ \<Rightarrow> False)"

definition js_ge :: "rat option \<Rightarrow> rat option \<Rightarrow> bool" where
  "js_ge a b = (case (a, b) of (Some x, Some y) \<Rightarrow> x \<ge> y | _ \<Rightarrow> False)"

definition js_abs :: "rat option \<Rightarrow> rat option" where
  "js_abs a = map_option abs a"

definition js_times :: "rat option \<Rightarrow> rat \<Rightarrow> rat option" where
  "js_times a k = map_option (\<lambda>x. x * k) a"

subsection \<open>Formatting and parsing\<close>

datatype date_format = DATE_FORMAT | DATE_T_FORMAT
  \<comment> \<open>\<open>yyyy-MM-dd\<close> and \<open>yyyy-MM-dd'T'HH\<close>\<close>

definition fmt_num :: "int \<Rightarrow> nat \<Rightarrow> string" where
  \<comment> \<open>a number padded with zeros to a width; a negative number keeps its sign in front\<close>
  "fmt_num i p =
     (if i < 0 then CHR ''-'' # padStart (show_nat (nat (- i))) p
      else padStart (show_nat (nat i)) p)"

definition toFormat :: "datetime \<Rightarrow> date_format \<Rightarrow> string" where
  "toFormat dt f =
     (case dt of InvalidDateTime \<Rightarrow> ''Invalid DateTime''
      | DateTime y m d h \<Rightarrow>
          (case f of
             DATE_FORMAT \<Rightarrow> fmt_num y 4 @ ''-'' @ fmt_num m 2 @ ''-'' @ fmt_num d 2
           | DATE_T_FORMAT \<Rightarrow>
               fmt_num y 4 @ ''-'' @ fmt_num m 2 @ ''-'' @ fmt_num d 2 @ ''T'' @ fmt_num h 2))"

text \<open>Matching a fixed number of digits, or one given character, at the front of a text.\<close>

definition match_digits :: "nat \<Rightarrow> string \<Rightarrow> (string \<times> string) option" where
  "match_digits n s =
     (if n \<le> length s \<and> list_all is_digit (take n s) then Some (take n s, drop n s) else None)"

definition match_char :: "char \<Rightarrow> string \<Rightarrow> string option" where
  "match_char c s = (case s of [] \<Rightarrow> None | x # xs \<Rightarrow> if x = c then Some xs else None)"

definition match_date :: "string \<Rightarrow> ((string \<times> string \<times> string) \<times> string) option" where
  \<comment> \<open>\<open>\d{4}-\d{2}-\d{2}\<close> at the front; the three digit groups and the rest\<close>
  "match_date s = do {
     (y, r1) \<leftarrow> match_digits 4 s;
     r2 \<leftarrow> match_char CHR ''-'' r1;
     (m, r3) \<leftarrow> match_digits 2 r2;
     r4 \<leftarrow> match_char CHR ''-'' r3;
     (d, r5) \<leftarrow> match_digits 2 r4;
     Some ((y, m, d), r5)
   }"

definition match_hour :: "string \<Rightarrow> string option" where
  \<comment> \<open>\<open>T\d{2}\<close> up to the end of the text\<close>
  "match_hour s = do {
     r1 \<leftarrow> match_char CHR ''T'' s;
     (h, r2) \<leftarrow> match_digits 2 r1;
     if r2 = [] then Some h else None
   }"

text \<open>
  \<open>DateTime.fromFormat(text, format)\<close> for the two formats: the text must have the shape
  of the format, the month must be 1..12 and the day must exist in that month; hour 24
  is accepted and is midnight of the following day. Anything else is an invalid
  \<open>DateTime\<close>, not an exception. The library compiles the format to a case-insensitive
  pattern, so the literal \<open>T\<close> of the format also matches \<open>t\<close>.
\<close>

definition valid_fields :: "int \<Rightarrow> int \<Rightarrow> int \<Rightarrow> int \<Rightarrow> bool" where
  "valid_fields y m d h =
     (1 \<le> m \<and> m \<le> 12 \<and> 1 \<le> d \<and> d \<le> daysInMonth y m \<and> 0 \<le> h \<and> h \<le> 24)"

definition make_datetime :: "string \<Rightarrow> string \<Rightarrow> string \<Rightarrow> string \<Rightarrow> datetime" where
  "make_datetime ys ms ds hs =
     (let y = int (parseInt ys); m = int (parseInt ms); d = int (parseInt ds);
          h = int (parseInt hs)
      in if valid_fields y m d h then from_hours (to_hours y m d h) else InvalidDateTime)"

definition fromFormat :: "string \<Rightarrow> date_format \<Rightarrow> datetime" where
  "fromFormat s f =
     (case match_date s of None \<Rightarrow> InvalidDateTime
      | Some ((y, m, d), r) \<Rightarrow>
          (case f of
             DATE_FORMAT \<Rightarrow> if r = [] then make_datetime y m d ''0'' else InvalidDateTime
           | DATE_T_FORMAT \<Rightarrow>
               (case r of
                  c # r' \<Rightarrow>
                    if c = CHR ''T'' \<or> c = CHR ''t'' then
                      (case match_hour (CHR ''T'' # r') of None \<Rightarrow> InvalidDateTime
                       | Some h \<Rightarrow> make_datetime y m d h)
                    else InvalidDateTime
                | [] \<Rightarrow> InvalidDateTime)))"

section \<open>Timeframe utilities\<close>

definition FIXED_TIMEFRAMES :: "string list" where
  "FIXED_TIMEFRAMES =
     [''now 1-H'', ''now 4-H'', ''now 1-d'', ''now 7-d'',
      ''today 1-m'', ''today 3-m'', ''today 5-y'', ''today 12-m'',
      ''all'']"

definition UNIT_MAP :: "string \<Rightarrow> luxon_unit option" where
  \<comment> \<open>\<open>None\<close> is \<open>undefined\<close>: the key is not in the object\<close>
  "UNIT_MAP u =
     (if u = ''H'' then Some Hours else if u = ''d'' then Some Days
      else if u = ''m'' then Some Months else if u = ''y'' then Some Years else None)"

definition is_unit_char :: "char \<Rightarrow> bool" where
  \<comment> \<open>the class \<open>[Hdmy]\<close>\<close>
  "is_unit_char c = (c \<in> set ''Hdmy'')"

definition isValidDate :: "string \<Rightarrow> bool" where
  \<comment> \<open>\<open>/^\d{4}-\d{2}-\d{2}(T\d{2})?$/.test(dateStr)\<close>\<close>
  "isValidDate dateStr =
     (case match_date dateStr of None \<Rightarrow> False
      | Some (_, r) \<Rightarrow> r = [] \<or> match_hour r \<noteq> None)"

definition isValidFormat :: "string \<Rightarrow> bool" where
  \<comment> \<open>\<open>/\d+[-]?[Hdmy]$/.test(offsetStr)\<close>: the pattern is tied to the end of the text only,
     so the text matches when it ends with a digit, an optional hyphen and a unit letter\<close>
  "isValidFormat offsetStr =
     (case rev offsetStr of
        u # c # r \<Rightarrow>
          is_unit_char u \<and>
          (is_digit c \<or> (c = CHR ''-'' \<and> (case r of c' # _ \<Rightarrow> is_digit c' | [] \<Rightarrow> False)))
      | _ \<Rightarrow> False)"

text \<open>
  \<open>offsetStr.match(/(\d+)[-]?([Hdmy]+)/)\<close>: the leftmost position where a run of digits,
  an optional hyphen and a run of unit letters begin. Both runs are greedy, and no shorter
  run can match where the longest does not.
\<close>

definition match_offset_here :: "string \<Rightarrow> (nat \<times> string) option" where
  "match_offset_here s =
     (let ds = takeWhile is_digit s;
          r = dropWhile is_digit s;
          r' = (case r of c # t \<Rightarrow> if c = CHR ''-'' then t else r | [] \<Rightarrow> r);
          us = takeWhile is_unit_char r'
      in if ds \<noteq> [] \<and> us \<noteq> [] then Some (parseInt ds, us) else None)"

fun extractTimeParts :: "string \<Rightarrow> (nat \<times> string) option" where
  "extractTimeParts [] = None"
| "extractTimeParts (c # cs) =
     (case match_offset_here (c # cs) of
        Some r \<Rightarrow> Some r
      | None \<Rightarrow> extractTimeParts cs)"

definition decodeTrendDatetime :: "string \<Rightarrow> datetime" where
  "decodeTrendDatetime dateStr =
     (let format = (if CHR ''T'' \<in> set dateStr then DATE_T_FORMAT else DATE_FORMAT)
      in fromFormat dateStr format)"

definition processTwoDates :: "string \<Rightarrow> string \<Rightarrow> error + string" where
  "processTwoDates datePart1 datePart2 =
     (let isT1 = CHR ''T'' \<in> set datePart1; isT2 = CHR ''T'' \<in> set datePart2
      in if \<not> isT1 \<and> \<not> isT2 then Inr (datePart1 @ '' '' @ datePart2)
         else
           let d1 = decodeTrendDatetime datePart1;
               d2 = decodeTrendDatetime datePart2;
               date2 = (if isT1 \<and> \<not> isT2 then startOfDay d2 else d2);
               date1 = (if isT1 \<and> \<not> isT2 then d1
                        else if \<not> isT1 \<and> isT2 then startOfDay d1 else d1)
           in if (isT1 \<or> isT2) \<and> js_gt (js_abs (as_days (dt_diff date2 date1))) (Some 7)
              then Inl DateDifferenceExceeds7Days
              else Inr (toFormat date1 DATE_T_FORMAT @ '' '' @ toFormat date2 DATE_T_FORMAT))"

definition processDateWithOffset :: "string \<Rightarrow> string \<Rightarrow> error + string" where
  "processDateWithOffset datePart1 offsetPart =
     (let date1 = decodeTrendDatetime datePart1
      in case extractTimeParts offsetPart of
           None \<Rightarrow> Inl TypeError
         | Some (count, unit) \<Rightarrow>
             if unit = ''m'' \<or> unit = ''y'' then
               (case dt_minus date1 (UNIT_MAP unit) count of
                  Inl e \<Rightarrow> Inl e
                | Inr d \<Rightarrow>
                    let date2 = (if unit = ''m'' then plus_days d 1 else d);
                        format = (if CHR ''T'' \<in> set datePart1 then DATE_T_FORMAT
                                  else DATE_FORMAT)
                    in Inr (toFormat date2 format @ '' '' @ toFormat date1 format))
             else if CHR ''T'' \<in> set datePart1 \<and>
                     ((unit = ''d'' \<and> count > 7) \<or> (unit = ''H'' \<and> count > 7 * 24))
             then Inl OffsetExceeds7Days
             else
               let format = (if CHR ''T'' \<in> set datePart1 then DATE_T_FORMAT else DATE_FORMAT)
               in (case dt_minus date1 (UNIT_MAP unit) count of
                     Inl e \<Rightarrow> Inl e
                   | Inr date2 \<Rightarrow> Inr (toFormat date2 format @ '' '' @ toFormat date1 format)))"

text \<open>
  \<open>convertTimeframe(timeframe, convertFixedTimeframesToDates)\<close>. The first argument of the
  model is the reading of the clock (\<open>DateTime.now()\<close>, epoch milliseconds) that the call
  takes.
\<close>

definition convertTimeframe :: "int \<Rightarrow> string \<Rightarrow> bool \<Rightarrow> error + string" where
  "convertTimeframe clock timeframe convertFixedTimeframesToDates =
     (if timeframe \<in> set FIXED_TIMEFRAMES \<and> \<not> convertFixedTimeframesToDates
      then Inr timeframe
      else
        let utcNow = fromMillis clock
        in if convertFixedTimeframesToDates \<and> timeframe = ''all''
           then Inr (''2024-01-01 '' @ toFormat utcNow DATE_FORMAT)
           else
             let tf = replace_first ''today'' (toFormat utcNow DATE_FORMAT)
                        (replace_first ''now'' (toFormat utcNow DATE_T_FORMAT) timeframe);
                 parts = split_on CHR '' '' tf
             in if length parts \<noteq> 2 then Inl InvalidTimeframeFormat
                else
                  let datePart1 = parts ! 0; datePart2 = parts ! 1
                  in if isValidDate datePart1 then
                       (if isValidDate datePart2 then processTwoDates datePart1 datePart2
                        else if isValidFormat datePart2
                        then processDateWithOffset datePart1 datePart2
                        else Inl CouldNotProcessTimeframe)
                     else Inl CouldNotProcessTimeframe)"

definition timeframeToDuration :: "int \<Rightarrow> string \<Rightarrow> error + duration" where
  "timeframeToDuration clock timeframe =
     (case convertTimeframe clock timeframe True of
        Inl e \<Rightarrow> Inl e
      | Inr result \<Rightarrow>
          (case map decodeTrendDatetime (split_on CHR '' '' result) of
             date1 # date2 # _ \<Rightarrow> Inr (dt_diff date2 date1)
           | _ \<Rightarrow> Inl TypeError))"

definition resolution_of_hours :: "rat option \<Rightarrow> string \<times> string" where
  \<comment> \<open>the chain of comparisons of \<open>getResolutionAndRange\<close>\<close>
  "resolution_of_hours hours =
     (if js_lt hours (Some 5) then (''1 minute'', ''delta < 5 hours'')
      else if js_lt hours (Some 36) then (''8 minutes'', ''5 hours <= delta < 36 hours'')
      else if js_lt hours (Some 72) then (''16 minutes'', ''36 hours <= delta < 72 hours'')
      else if js_lt hours (Some (24 * 8)) then (''1 hour'', ''72 hours <= delta < 8 days'')
      else if js_lt hours (Some (24 * 270)) then (''1 day'', ''8 days <= delta < 270 days'')
      else if js_lt hours (Some (24 * 1900))
      then (''1 week'', ''270 days <= delta < 1900 days'')
      else (''1 month'', ''delta >= 1900 days''))"

definition getResolutionAndRange :: "int \<Rightarrow> string \<Rightarrow> error + string \<times> string" where
  "getResolutionAndRange clock timeframe =
     (case timeframeToDuration clock timeframe of
        Inl e \<Rightarrow> Inl e
      | Inr duration \<Rightarrow> Inr (resolution_of_hours (as_hours duration)))"

fun ensureList :: "'a js_arg \<Rightarrow> 'a list" where
  "ensureList (Array xs) = xs"
| "ensureList (Scalar x) = [x]"

text \<open>\<open>xs.map(f)\<close> with a callback that may throw: the first exception ends the call.\<close>

fun map_throwing :: "('a \<Rightarrow> error + 'b) \<Rightarrow> 'a list \<Rightarrow> error + 'b list" where
  "map_throwing f [] = Inr []"
| "map_throwing f (x # xs) =
     (case f x of
        Inl e \<Rightarrow> Inl e
      | Inr y \<Rightarrow> (case map_throwing f xs of Inl e \<Rightarrow> Inl e | Inr ys \<Rightarrow> Inr (y # ys)))"

definition millis_of :: "duration \<Rightarrow> int option" where
  "millis_of d = (case d of InvalidDuration \<Rightarrow> None | Millis ms \<Rightarrow> Some ms)"

definition pick_min :: "duration \<times> string \<Rightarrow> duration \<times> string \<Rightarrow> duration \<times> string" where
  \<comment> \<open>the callback of the first \<open>reduce\<close>: arguments accumulator, then current element\<close>
  "pick_min acc cur =
     (if js_lt (as_milliseconds (fst cur)) (as_milliseconds (fst acc)) then cur else acc)"

definition pick_max :: "duration \<times> string \<Rightarrow> duration \<times> string \<Rightarrow> duration \<times> string" where
  \<comment> \<open>the callback of the second \<open>reduce\<close>\<close>
  "pick_max acc cur =
     (if js_gt (as_milliseconds (fst cur)) (as_milliseconds (fst acc)) then cur else acc)"

text \<open>
  \<open>checkTimeframeResolution(timeframes)\<close> of the timeframe utilities. All conversions of
  one call are taken at the same reading of the clock.
\<close>

definition checkTimeframeResolution :: "int \<Rightarrow> string js_arg \<Rightarrow> error + unit" where
  "checkTimeframeResolution clock timeframes_arg =
     (let timeframes = ensureList timeframes_arg
      in case map_throwing (getResolutionAndRange clock) timeframes of
           Inl e \<Rightarrow> Inl e
         | Inr resolutions \<Rightarrow>
             (case map_throwing (timeframeToDuration clock) timeframes of
                Inl e \<Rightarrow> Inl e
              | Inr durations \<Rightarrow>
                  let resolutionValues = map fst resolutions
                  in if length (remdups resolutionValues) > 1
                     then Inl (DifferentResolutions
                       (map (\<lambda>(timeframe, d, r). (timeframe, millis_of d, fst r, snd r))
                          (zip timeframes (zip durations resolutions))))
                     else
                       (case zip durations timeframes of
                          [] \<Rightarrow> Inl TypeError
                        | first # _ \<Rightarrow>
                            let (minDuration, minTimeframe) =
                                  foldl pick_min first (zip durations timeframes);
                                (maxDuration, maxTimeframe) =
                                  foldl pick_max first (zip durations timeframes)
                            in if js_ge (as_milliseconds maxDuration)
                                    (js_times (as_milliseconds minDuration) 2)
                               then Inl (ResolutionRatioTooLarge (millis_of maxDuration)
                                      maxTimeframe (millis_of minDuration) minTimeframe)
                               else Inr ())))"

section \<open>The transport: \<open>Trends._get\<close>\<close>

text \<open>
  The HTTP client and the clock are the environment of \<open>_get\<close>. One attempt of the
  environment says how the request ends (it resolves with a response, or it rejects with
  an error that may carry the status of a response), how many milliseconds the request
  takes, and how many milliseconds a re-initialisation of the session takes if the
  attempt triggers one. Time is in whole milliseconds; a sleep advances the clock by
  exactly the time asked for; \<open>requestDelay\<close> is a whole number of seconds and
  \<open>maxRetries\<close> a natural number.
\<close>

record response =
  status :: nat
  content_type :: "nat list option"
  data :: "nat list"

datatype outcome = Resolved response | Rejected "nat option"

record attempt =
  outcome :: outcome
  latency :: nat
  reinit_time :: nat

text \<open>What the transport does that can be observed, in order.\<close>

datatype event =
    ThrottleSleep int     \<comment> \<open>the throttle waits, milliseconds\<close>
  | Dispatch int          \<comment> \<open>the time stored into \<open>lastRequestTimes\<close> before a request\<close>
  | BackoffSleep int      \<comment> \<open>\<open>Rate limit hit, waiting ... seconds before retry\<close>, milliseconds\<close>
  | InitSession           \<comment> \<open>\<open>_initSession()\<close> runs\<close>
  | Advisory nat          \<comment> \<open>the warning that recommends \<open>requestDelay: ...\<close>\<close>

record transport =
  requestDelay :: nat
  maxRetries :: nat
  lastRequestTimes :: "int list"
  now :: int
  responseCodes :: "nat list"
  trace :: "event list"

definition js_set :: "'a list \<Rightarrow> 'a list" where
  \<comment> \<open>\<open>new Set(xs)\<close>: the distinct elements in order of first appearance\<close>
  "js_set xs = rev (remdups (rev xs))"

definition math_min :: "int list \<Rightarrow> int" where
  \<comment> \<open>\<open>Math.min(...xs)\<close> of a non-empty collection\<close>
  "math_min xs = Min (set xs)"

definition sleep :: "int \<Rightarrow> transport \<Rightarrow> transport" where
  "sleep ms t = t\<lparr>now := now t + ms\<rparr>"

definition log_event :: "event \<Rightarrow> transport \<Rightarrow> transport" where
  "log_event e t = t\<lparr>trace := trace t @ [e]\<rparr>"

definition throttle :: "transport \<Rightarrow> transport" where
  \<comment> \<open>the block guarded by \<open>if (this.requestDelay)\<close>\<close>
  "throttle t =
     (if requestDelay t = 0 then t
      else
        let minTime = math_min (lastRequestTimes t);
            sleepTime = max 0 (int (requestDelay t) * 1000 - (now t - minTime));
            t1 = (if sleepTime > 0 then log_event (ThrottleSleep sleepTime) (sleep sleepTime t)
                  else t);
            t2 = t1\<lparr>lastRequestTimes :=
                     js_set (filter (\<lambda>x. x \<noteq> minTime) (lastRequestTimes t1) @ [now t1])\<rparr>
        in log_event (Dispatch (now t2)) t2)"

definition initSession :: "nat \<Rightarrow> transport \<Rightarrow> transport" where
  \<comment> \<open>\<open>_initSession()\<close>: two requests and a pause; here only the time it takes\<close>
  "initSession duration t = log_event InitSession (sleep (int duration) t)"

definition exhausted :: "transport \<Rightarrow> (error + response) \<times> transport" where
  \<comment> \<open>the code after the loop\<close>
  "exhausted t =
     (let t1 = (if 2 * length (filter (\<lambda>code. code = 429) (responseCodes t))
                     > length (responseCodes t)
                then log_event
                       (Advisory ((if requestDelay t = 0 then 1 else requestDelay t) * 2)) t
                else t)
      in (Inl (RequestExhausted (maxRetries t1)), t1))"

text \<open>
  The loop \<open>while (retries > 0)\<close>, by recursion on \<open>retries\<close>. The attempt number
  \<open>maxRetries - retries\<close> selects what the environment does.
\<close>

fun get_loop :: "(nat \<Rightarrow> attempt) \<Rightarrow> nat \<Rightarrow> transport \<Rightarrow> (error + response) \<times> transport" where
  "get_loop env 0 t = exhausted t"
| "get_loop env (Suc r) t =
     (let retries = Suc r;
          a = env (maxRetries t - retries);
          t1 = throttle t;
          t2 = sleep (int (latency a)) t1
      in case outcome a of
           Resolved resp \<Rightarrow>
             let t3 = t2\<lparr>responseCodes := responseCodes t2 @ [status resp]\<rparr>
             in if status resp = 200 then (Inr resp, t3)
                else
                  let t4 = (if status resp \<in> set [429, 302]
                            then
                              let waitTime = 2 ^ (maxRetries t - retries) * 5
                              in log_event (BackoffSleep (waitTime * 1000))
                                   (sleep (waitTime * 1000) t3)
                            else t3)
                  in get_loop env (retries - 1) t4
         | Rejected error_status \<Rightarrow>
             let t3 = (if error_status = Some 401 \<or> error_status = Some 403
                       then initSession (reinit_time a) t2 else t2)
             in get_loop env (retries - 1) t3)"

definition get :: "(nat \<Rightarrow> attempt) \<Rightarrow> transport \<Rightarrow> (error + response) \<times> transport" where
  \<comment> \<open>\<open>_get\<close> on a session that already holds its cookies\<close>
  "get env t = get_loop env (maxRetries t) (t\<lparr>responseCodes := []\<rparr>)"

text \<open>The state after one pass of the loop body that does not return.\<close>

definition after_attempt :: "attempt \<Rightarrow> nat \<Rightarrow> transport \<Rightarrow> transport" where
  "after_attempt a k t =
     (let t2 = sleep (int (latency a)) (throttle t)
      in case outcome a of
           Resolved resp \<Rightarrow>
             let t3 = t2\<lparr>responseCodes := responseCodes t2 @ [status resp]\<rparr>
             in if status resp \<in> set [429, 302]
                then log_event (BackoffSleep (2 ^ k * 5 * 1000)) (sleep (2 ^ k * 5 * 1000) t3)
                else t3
         | Rejected error_status \<Rightarrow>
             if error_status = Some 401 \<or> error_status = Some 403
             then initSession (reinit_time a) t2 else t2)"

definition backoff_sleeps :: "event list \<Rightarrow> int list" where
  "backoff_sleeps tr = concat (map (\<lambda>e. case e of BackoffSleep ms \<Rightarrow> [ms] | _ \<Rightarrow> []) tr)"

definition dispatch_times :: "event list \<Rightarrow> int list" where
  "dispatch_times tr = concat (map (\<lambda>e. case e of Dispatch ms \<Rightarrow> [ms] | _ \<Rightarrow> []) tr)"

definition advisories :: "event list \<Rightarrow> nat list" where
  "advisories tr = concat (map (\<lambda>e. case e of Advisory d \<Rightarrow> [d] | _ \<Rightarrow> []) tr)"

definition rate_limited :: "attempt \<Rightarrow> bool" where
  \<comment> \<open>the attempt resolves with status 429 or 302\<close>
  "rate_limited a =
     (case outcome a of Resolved resp \<Rightarrow> status resp = 429 \<or> status resp = 302
      | Rejected _ \<Rightarrow> False)"

definition returns_200 :: "attempt \<Rightarrow> bool" where
  "returns_200 a = (case outcome a of Resolved resp \<Rightarrow> status resp = 200 | Rejected _ \<Rightarrow> False)"

definition observed_status :: "attempt \<Rightarrow> nat list" where
  \<comment> \<open>what the attempt adds to \<open>responseCodes\<close>\<close>
  "observed_status a = (case outcome a of Resolved resp \<Rightarrow> [status resp] | Rejected _ \<Rightarrow> [])"

text \<open>
  Spacing of a sequence of timestamps: \<open>spaced d\<close> holds when every element is at least
  \<open>d\<close> above the element two places before it, \<open>consecutive_apart d\<close> when every element is
  at least \<open>d\<close> above its predecessor.
\<close>

fun spaced :: "int \<Rightarrow> int list \<Rightarrow> bool" where
  "spaced d (x # y # z # r) = (x + d \<le> z \<and> spaced d (y # z # r))"
| "spaced d r = True"

fun consecutive_apart :: "int \<Rightarrow> int list \<Rightarrow> bool" where
  "consecutive_apart d (x # y # r) = (x + d \<le> y \<and> consecutive_apart d (y # r))"
| "consecutive_apart d r = True"

text \<open>
  The window of the throttle: the tracked times are among the last two dispatch times
  \<open>a \<le> b\<close>, which lie in the past.
\<close>

definition window_ok :: "int \<Rightarrow> int \<Rightarrow> transport \<Rightarrow> bool" where
  "window_ok a b t =
     (lastRequestTimes t \<noteq> [] \<and> set (lastRequestTimes t) \<subseteq> {a, b} \<and> a \<le> b \<and> b \<le> now t)"

text \<open>
  A transport as the constructor leaves it (\<open>lastRequestTimes = new Set([0, 1])\<close>), and two
  environments: every request is rejected without a response, and every request resolves
  with status 429; both take the given number of milliseconds per request.
\<close>

definition new_transport :: "nat \<Rightarrow> nat \<Rightarrow> int \<Rightarrow> transport" where
  "new_transport delay retries clock =
     \<lparr>requestDelay = delay, maxRetries = retries, lastRequestTimes = [0, 1], now = clock,
      responseCodes = [], trace = []\<rparr>"

definition always_rejects :: "nat \<Rightarrow> nat \<Rightarrow> attempt" where
  "always_rejects ms k = \<lparr>outcome = Rejected None, latency = ms, reinit_time = 0\<rparr>"


section \<open>Response texts\<close>

text \<open>
  The text of a response is a JavaScript string: a sequence of UTF-16 code units, here
  natural numbers. \<open>js\<close> turns an ASCII text into its code units. Characters that have
  no convenient notation are written by their code: 34 is the double quote, 39 the
  apostrophe, 92 the backslash, 10 the line feed.
\<close>

definition js :: "string \<Rightarrow> nat list" where
  "js s = map of_char s"

subsection \<open>\<open>JSON.parse\<close>\<close>

text \<open>
  The values of JSON. A number is kept as the text that denotes it, and an object as the
  list of its members in the order of the text.
\<close>

datatype json =
    JNull | JBool bool | JNumber "nat list" | JString "nat list"
  | JArray "json list" | JObject "(nat list \<times> json) list"

definition json_ws :: "nat \<Rightarrow> bool" where
  \<comment> \<open>space, tab, line feed, carriage return\<close>
  "json_ws c = (c = 32 \<or> c = 9 \<or> c = 10 \<or> c = 13)"

definition skip_ws :: "nat list \<Rightarrow> nat list" where
  "skip_ws s = dropWhile json_ws s"

definition dec_digit :: "nat \<Rightarrow> bool" where
  "dec_digit c = (48 \<le> c \<and> c \<le> 57)"

definition is_hex :: "nat \<Rightarrow> bool" where
  \<comment> \<open>the class \<open>[0-9A-Fa-f]\<close>\<close>
  "is_hex c = ((48 \<le> c \<and> c \<le> 57) \<or> (65 \<le> c \<and> c \<le> 70) \<or> (97 \<le> c \<and> c \<le> 102))"

definition hex_val :: "nat \<Rightarrow> nat" where
  "hex_val c = (if c \<le> 57 then c - 48 else if c \<le> 70 then c - 55 else c - 87)"

definition parse_hex :: "nat list \<Rightarrow> nat" where
  \<comment> \<open>\<open>parseInt(hex, 16)\<close> on hexadecimal digits\<close>
  "parse_hex ds = foldl (\<lambda>acc c. 16 * acc + hex_val c) 0 ds"

text \<open>The characters of a JSON string, after the opening quote, up to the closing one.\<close>

fun parse_chars :: "nat list \<Rightarrow> (nat list \<times> nat list) option" where
  "parse_chars [] = None"
| "parse_chars (c # cs) =
     (if c = 34 then Some ([], cs)
      else if c = 92 then
        (case cs of
           [] \<Rightarrow> None
         | e # r \<Rightarrow>
             if e = 117 then
               (if 4 \<le> length r \<and> list_all is_hex (take 4 r)
                then map_option (apfst ((#) (parse_hex (take 4 r)))) (parse_chars (drop 4 r))
                else None)
             else
               (case map_of [(34, 34), (92, 92), (47, 47), (98, 8), (102, 12), (110, 10),
                             (114, 13), (116, 9)] e of
                  None \<Rightarrow> None
                | Some v \<Rightarrow> map_option (apfst ((#) v)) (parse_chars r)))
      else if c < 32 then None
      else map_option (apfst ((#) c)) (parse_chars cs))"

definition parse_digits :: "nat list \<Rightarrow> (nat list \<times> nat list) option" where
  \<comment> \<open>one or more decimal digits\<close>
  "parse_digits s =
     (let ds = takeWhile dec_digit s in if ds = [] then None else Some (ds, dropWhile dec_digit s))"

definition parse_number :: "nat list \<Rightarrow> (nat list \<times> nat list) option" where
  \<comment> \<open>\<open>-? (0 | [1-9][0-9]*) (. [0-9]+)? ([eE] [+-]? [0-9]+)?\<close>\<close>
  "parse_number s = do {
     (sign, r0) \<leftarrow> Some (case s of c # r \<Rightarrow> if c = 45 then ([c], r) else ([], s) | [] \<Rightarrow> ([], s));
     (ip, r1) \<leftarrow> (case r0 of
                    c # r \<Rightarrow> if c = 48 then Some ([c], r)
                             else if dec_digit c then parse_digits r0 else None
                  | [] \<Rightarrow> None);
     (fp, r2) \<leftarrow> (case r1 of
                    c # r \<Rightarrow> if c = 46 then map_option (apfst ((#) c)) (parse_digits r)
                             else Some ([], r1)
                  | [] \<Rightarrow> Some ([], r1));
     (ep, r3) \<leftarrow> (case r2 of
                    c # r \<Rightarrow>
                      if c = 101 \<or> c = 69 then
                        (case r of
                           g # r' \<Rightarrow>
                             if g = 43 \<or> g = 45
                             then map_option (apfst (\<lambda>ds. c # g # ds)) (parse_digits r')
                             else map_option (apfst ((#) c)) (parse_digits r)
                         | [] \<Rightarrow> None)
                      else Some ([], r2)
                  | [] \<Rightarrow> Some ([], r2));
     Some (sign @ ip @ fp @ ep, r3)
   }"

text \<open>
  Values, the elements of an array after its bracket, and the members of an object after
  its brace. The first argument bounds the number of nested calls; the length of the
  text is always enough, since every call that succeeds consumes a character.
\<close>

fun parse_value :: "nat \<Rightarrow> nat list \<Rightarrow> (json \<times> nat list) option"
  and parse_elements :: "nat \<Rightarrow> nat list \<Rightarrow> (json list \<times> nat list) option"
  and parse_members :: "nat \<Rightarrow> nat list \<Rightarrow> ((nat list \<times> json) list \<times> nat list) option"
where
  "parse_value 0 s = None"
| "parse_value (Suc n) s =
     (case skip_ws s of
        [] \<Rightarrow> None
      | c # r \<Rightarrow>
          if c = 123 then
            (case skip_ws r of
               [] \<Rightarrow> None
             | d # r' \<Rightarrow> if d = 125 then Some (JObject [], r')
                          else map_option (apfst JObject) (parse_members n (d # r')))
          else if c = 91 then
            (case skip_ws r of
               [] \<Rightarrow> None
             | d # r' \<Rightarrow> if d = 93 then Some (JArray [], r')
                          else map_option (apfst JArray) (parse_elements n (d # r')))
          else if c = 34 then map_option (apfst JString) (parse_chars r)
          else if starts_with (js ''true'') (c # r) then Some (JBool True, drop 4 (c # r))
          else if starts_with (js ''false'') (c # r) then Some (JBool False, drop 5 (c # r))
          else if starts_with (js ''null'') (c # r) then Some (JNull, drop 4 (c # r))
          else map_option (apfst JNumber) (parse_number (c # r)))"
| "parse_elements 0 s = None"
| "parse_elements (Suc n) s =
     (case parse_value n s of
        None \<Rightarrow> None
      | Some (v, r) \<Rightarrow>
          (case skip_ws r of
             [] \<Rightarrow> None
           | c # r' \<Rightarrow>
               if c = 44 then map_option (apfst ((#) v)) (parse_elements n r')
               else if c = 93 then Some ([v], r')
               else None))"
| "parse_members 0 s = None"
| "parse_members (Suc n) s =
     (case skip_ws s of
        [] \<Rightarrow> None
      | q # r \<Rightarrow>
          if q \<noteq> 34 then None
          else
            (case parse_chars r of
               None \<Rightarrow> None
             | Some (k, r1) \<Rightarrow>
                 (case skip_ws r1 of
                    [] \<Rightarrow> None
                  | c # r2 \<Rightarrow>
                      if c \<noteq> 58 then None
                      else
                        (case parse_value n r2 of
                           None \<Rightarrow> None
                         | Some (v, r3) \<Rightarrow>
                             (case skip_ws r3 of
                                [] \<Rightarrow> None
                              | e # r4 \<Rightarrow>
                                  if e = 44
                                  then map_option (apfst ((#) (k, v))) (parse_members n r4)
                                  else if e = 125 then Some ([(k, v)], r4)
                                  else None)))))"

definition JSON_parse :: "nat list \<Rightarrow> json option" where
  \<comment> \<open>\<open>None\<close> is the \<open>SyntaxError\<close> that \<open>JSON.parse\<close> throws\<close>
  "JSON_parse s =
     (case parse_value (Suc (length s)) s of
        None \<Rightarrow> None
      | Some (v, r) \<Rightarrow> if skip_ws r = [] then Some v else None)"

subsection \<open>\<open>Trends._parseProtectedJson\<close>\<close>

definition js_space :: "nat \<Rightarrow> bool" where
  \<comment> \<open>what \<open>trim\<close> removes: white space and line terminators\<close>
  "js_space c =
     (c \<in> set [9, 10, 11, 12, 13, 32, 160, 5760, 8232, 8233, 8239, 8287, 12288, 65279]
      \<or> (8192 \<le> c \<and> c \<le> 8202))"

definition trim :: "nat list \<Rightarrow> nat list" where
  "trim s = rev (dropWhile js_space (rev (dropWhile js_space s)))"

definition toLowerCase :: "nat list \<Rightarrow> nat list" where
  \<comment> \<open>on the letters A to Z; other code units are kept, and none of them has a lower-case
     form that occurs in the accepted content types\<close>
  "toLowerCase s = map (\<lambda>c. if 65 \<le> c \<and> c \<le> 90 then c + 32 else c) s"

definition validContentTypes :: "nat list list" where
  "validContentTypes =
     [js ''application/json'', js ''application/javascript'', js ''text/javascript'']"

definition first_part :: "nat list list \<Rightarrow> nat list" where
  \<comment> \<open>\<open>parts[0]\<close> of the result of \<open>split\<close>, which is never empty\<close>
  "first_part parts = (case parts of p # _ \<Rightarrow> p | [] \<Rightarrow> [])"

definition js_pop :: "'a list \<Rightarrow> 'a option" where
  \<comment> \<open>\<open>parts.pop()\<close>: the last element, \<open>undefined\<close> for none\<close>
  "js_pop parts = (case rev parts of x # _ \<Rightarrow> Some x | [] \<Rightarrow> None)"

definition contentType_of :: "response \<Rightarrow> nat list" where
  \<comment> \<open>\<open>(response.headers['content-type'] || '').split(';')[0].trim().toLowerCase()\<close>\<close>
  "contentType_of response =
     toLowerCase (trim (first_part (split_on 59
       (case content_type response of None \<Rightarrow> [] | Some v \<Rightarrow> v))))"

definition parseProtectedJson :: "response \<Rightarrow> error + json" where
  "parseProtectedJson response =
     (let contentType = contentType_of response
      in if status response \<noteq> 200 \<or> contentType \<notin> set validContentTypes
         then Inl (InvalidResponse (status response) contentType)
         else
           (case js_pop (split_on 10 (data response)) of
              None \<Rightarrow> Inl FailedToParseJSON
            | Some jsonData \<Rightarrow>
                (case JSON_parse jsonData of
                   None \<Rightarrow> Inl FailedToParseJSON
                 | Some v \<Rightarrow> Inr v)))"

text \<open>
  The reading of the response that discards its first line: the text after the first
  line feed.
\<close>

definition after_first_line :: "nat list \<Rightarrow> nat list" where
  "after_first_line body = (case dropWhile (\<lambda>c. c \<noteq> 10) body of [] \<Rightarrow> [] | _ # r \<Rightarrow> r)"

subsection \<open>\<open>decodeEscapeText\<close> and \<open>Trends._extractEmbeddedData\<close>\<close>

text \<open>
  The three global replacements of \<open>decodeEscapeText\<close>. Each scans from the left and
  continues after a replaced match.
\<close>

fun replace_hex :: "nat list \<Rightarrow> nat list" where
  \<comment> \<open>\<open>/\\x([0-9A-Fa-f]{2})/g\<close>\<close>
  "replace_hex (b # x # h1 # h2 # cs) =
     (if b = 92 \<and> x = 120 \<and> is_hex h1 \<and> is_hex h2
      then parse_hex [h1, h2] # replace_hex cs
      else b # replace_hex (x # h1 # h2 # cs))"
| "replace_hex (c # cs) = c # replace_hex cs"
| "replace_hex [] = []"

fun replace_unicode :: "nat list \<Rightarrow> nat list" where
  \<comment> \<open>\<open>/\\u([0-9A-Fa-f]{4})/g\<close>\<close>
  "replace_unicode (b # u # h1 # h2 # h3 # h4 # cs) =
     (if b = 92 \<and> u = 117 \<and> is_hex h1 \<and> is_hex h2 \<and> is_hex h3 \<and> is_hex h4
      then parse_hex [h1, h2, h3, h4] # replace_unicode cs
      else b # replace_unicode (u # h1 # h2 # h3 # h4 # cs))"
| "replace_unicode (c # cs) = c # replace_unicode cs"
| "replace_unicode [] = []"

definition line_terminator :: "nat \<Rightarrow> bool" where
  \<comment> \<open>what the pattern \<open>.\<close> does not match\<close>
  "line_terminator c = (c = 10 \<or> c = 13 \<or> c = 8232 \<or> c = 8233)"

fun replace_escape :: "nat list \<Rightarrow> nat list" where
  \<comment> \<open>\<open>/\\(.)/g\<close> replaced by the character that follows the backslash\<close>
  "replace_escape (b # c # cs) =
     (if b = 92 \<and> \<not> line_terminator c then c # replace_escape cs
      else b # replace_escape (c # cs))"
| "replace_escape cs = cs"

definition decodeEscapeText :: "nat list \<Rightarrow> nat list" where
  "decodeEscapeText text = replace_escape (replace_unicode (replace_hex text))"

text \<open>
  \<open>text.match(/JSON\.parse\('([^']+)'\)/)\<close>: the leftmost place where the marker, a
  non-empty run of characters other than the apostrophe, an apostrophe and a closing
  parenthesis follow one another. The result is the run.
\<close>

definition literal_marker :: "nat list" where
  "literal_marker = js ''JSON.parse('' @ [39]"

definition match_literal_here :: "nat list \<Rightarrow> nat list option" where
  "match_literal_here s =
     (if starts_with literal_marker s then
        (let rest = drop (length literal_marker) s;
             lit = takeWhile (\<lambda>c. c \<noteq> 39) rest;
             after = dropWhile (\<lambda>c. c \<noteq> 39) rest
         in if lit \<noteq> [] \<and> starts_with [39, 41] after then Some lit else None)
      else None)"

fun find_literal :: "nat list \<Rightarrow> nat list option" where
  "find_literal [] = None"
| "find_literal (c # cs) =
     (case match_literal_here (c # cs) of
        Some lit \<Rightarrow> Some lit
      | None \<Rightarrow> find_literal cs)"

text \<open>
  \<open>_extractEmbeddedData\<close> returns the parsed value, or \<open>null\<close> (here \<open>None\<close>) after a
  warning on the console; the second component is what it writes to the console.
\<close>

definition extractEmbeddedData :: "nat list \<Rightarrow> (error + json option) \<times> string list" where
  "extractEmbeddedData text =
     (case find_literal text of
        Some lit \<Rightarrow>
          (case JSON_parse (decodeEscapeText lit) of
             None \<Rightarrow> (Inl SyntaxError, [])
           | Some v \<Rightarrow> (Inr (Some v), []))
      | None \<Rightarrow> (Inr None, [''Failed to extract JSON data'']))"

text \<open>
  A response that passes the validation, with a given body, and a body of three lines:
  the preamble \<open>)]}'\<close>, then \<open>[1,\<close>, then \<open>2]\<close>.
\<close>

definition protected_body :: "nat list" where
  "protected_body = js '')]}'' @ [39, 10] @ js ''[1,'' @ [10] @ js ''2]''"

definition json_response :: "nat list \<Rightarrow> response" where
  "json_response body =
     \<lparr>status = 200, content_type = Some (js ''application/json; charset=utf-8''), data = body\<rparr>"

text \<open>
  An explore page that holds one literal: the text \<open>{"type":"fe_line_chart"}\<close> with
  each double quote written as the hex escape \<open>\x22\<close>.
\<close>

definition explore_body :: "nat list" where
  "explore_body =
     js ''var t = '' @ literal_marker @
     js ''{'' @ [92] @ js ''x22type'' @ [92] @ js ''x22:'' @ [92] @ js ''x22fe_line_chart'' @
       [92] @ js ''x22}'' @
     [39, 41] @ js '';''"

text \<open>
  The two \<open>reduce\<close> calls, read on durations that are numbers: the callbacks on plain
  milliseconds, and the embedding of a pair of milliseconds and timeframe.
\<close>

definition int_min :: "int \<times> string \<Rightarrow> int \<times> string \<Rightarrow> int \<times> string" where
  "int_min acc cur = (if fst cur < fst acc then cur else acc)"

definition int_max :: "int \<times> string \<Rightarrow> int \<times> string \<Rightarrow> int \<times> string" where
  "int_max acc cur = (if fst cur > fst acc then cur else acc)"

definition tag :: "int \<times> string \<Rightarrow> duration \<times> string" where
  "tag p = (Millis (fst p), snd p)"

text \<open>The characters that a date-like text can contain.\<close>

definition date_char :: "char \<Rightarrow> bool" where
  "date_char c = (is_digit c \<or> c = CHR ''-'' \<or> c = CHR ''T'')"

text \<open>
  Characters that may stand in front of an offset without changing how the timeframe is
  read: no digit (the offset's number starts at the first digit), no space (the part
  separator), and neither \<open>n\<close> nor \<open>t\<close> (so that the text holds no \<open>now\<close> or \<open>today\<close>
  marker to substitute).
\<close>

definition garbage_char :: "char \<Rightarrow> bool" where
  "garbage_char c = (\<not> is_digit c \<and> c \<noteq> CHR '' '' \<and> c \<noteq> CHR ''n'' \<and> c \<noteq> CHR ''t'')"

section \<open>Properties of the request encoding\<close>

lemma copies_double: "copies n (xs @ xs) = copies (2 * n) xs"
proof (induction n)
  case 0
  show ?case by (simp add: copies_def)
next
  case (Suc n)
  then show ?case by (simp add: copies_def)
qed

lemma length_copies: "length (copies n xs) = n * length xs"
  by (induction n) (simp_all add: copies_def)

lemma nth_copies: "i < n * length xs \<Longrightarrow> copies n xs ! i = xs ! (i mod length xs)"
proof (induction n arbitrary: i)
  case 0
  then show ?case by simp
next
  case (Suc n)
  have c: "copies (Suc n) xs = xs @ copies n xs" by (simp add: copies_def)
  show ?case
  proof (cases "i < length xs")
    case True
    then show ?thesis by (simp add: c nth_append)
  next
    case False
    then have ge: "length xs \<le> i" by simp
    from Suc.prems ge have lt: "i - length xs < n * length xs" by simp
    have "copies (Suc n) xs ! i = copies n xs ! (i - length xs)"
      using False by (simp add: c nth_append)
    also have "\<dots> = xs ! ((i - length xs) mod length xs)"
      using Suc.IH [OF lt] .
    also have "(i - length xs) mod length xs = i mod length xs"
      using ge by (simp add: le_mod_geq)
    finally show ?thesis .
  qed
qed

lemma double_until_closed:
  "xs \<noteq> [] \<Longrightarrow>
     \<exists>k. double_until maxLen xs = Some (copies (2 ^ k) xs) \<and> doublings maxLen (length xs) k"
proof (induction "maxLen - length xs" arbitrary: xs rule: less_induct)
  case less
  show ?case
  proof (cases "length xs < maxLen")
    case False
    have "double_until maxLen xs = Some (copies (2 ^ 0) xs)"
      using False by (subst double_until.simps) (simp add: copies_def)
    moreover have "doublings maxLen (length xs) 0"
      using False by (simp add: doublings_def)
    ultimately show ?thesis by blast
  next
    case True
    from less.prems have pos: "0 < length xs" by simp
    with True have "maxLen - (length xs + length xs) < maxLen - length xs" by arith
    then have dec: "maxLen - length (xs @ xs) < maxLen - length xs" by simp
    from less.prems have ne: "xs @ xs \<noteq> []" by simp
    from less.hyps [OF dec ne] obtain k where
      r: "double_until maxLen (xs @ xs) = Some (copies (2 ^ k) (xs @ xs))" and
      d: "doublings maxLen (length (xs @ xs)) k" by blast
    have "double_until maxLen xs = double_until maxLen (xs @ xs)"
      using True by (subst double_until.simps) simp
    with r have r': "double_until maxLen xs = Some (copies (2 ^ Suc k) xs)"
      by (simp add: copies_double)
    from d have d2: "doublings maxLen (2 * length xs) k" by (simp add: mult_2)
    have d': "doublings maxLen (length xs) (Suc k)"
    proof (cases k)
      case 0
      with d2 True show ?thesis by (simp add: doublings_def)
    next
      case (Suc j)
      with d2 show ?thesis by (simp add: doublings_def algebra_simps)
    qed
    from r' d' show ?thesis by blast
  qed
qed

lemma doublings_exact:
  assumes "maxLen = 2 ^ j * len" and "0 < len" and "doublings maxLen len k"
  shows "k = j"
proof -
  from assms have up: "(2::nat) ^ j \<le> 2 ^ k" by (simp add: doublings_def)
  then have jk: "j \<le> k" by simp
  have "\<not> j < k"
  proof
    assume "j < k"
    then have "j \<le> k - 1" and "0 < k" by simp_all
    then have "(2::nat) ^ j \<le> 2 ^ (k - 1)" by simp
    then have "2 ^ j * len \<le> 2 ^ (k - 1) * len" by simp
    moreover from assms \<open>0 < k\<close> have "2 ^ (k - 1) * len < 2 ^ j * len"
      by (simp add: doublings_def)
    ultimately show False by simp
  qed
  with jk show ?thesis by simp
qed

lemma evenly_divides_pos: "evenly_divides len maxLen \<Longrightarrow> 0 < len"
  by (simp add: evenly_divides_def js_rem_def split: if_splits)

lemma evenly_divides_iff: "evenly_divides len maxLen \<longleftrightarrow> 0 < len \<and> maxLen mod len = 0"
  by (auto simp: evenly_divides_def js_rem_def)

lemma encodeItems_reject:
  assumes "\<not> (evenly_divides (length (coerce_list kw)) M \<and>
             evenly_divides (length (coerce_list tf)) M \<and>
             evenly_divides (length (coerce_list g)) M)"
    and "M = max (length (coerce_list kw))
               (max (length (coerce_list tf)) (length (coerce_list g)))"
  shows "encodeItems kw tf g =
           Some (Inl (AmbiguousCombinationSize
             [length (coerce_list kw), length (coerce_list tf), length (coerce_list g)]))"
  using assms by (auto simp: encodeItems_def Let_def)

lemma encodeItems_accept:
  assumes ek: "evenly_divides (length (coerce_list kw)) M"
    and et: "evenly_divides (length (coerce_list tf)) M"
    and eg: "evenly_divides (length (coerce_list g)) M"
    and M: "M = max (length (coerce_list kw))
               (max (length (coerce_list tf)) (length (coerce_list g)))"
  shows "\<exists>a b c. doublings M (length (coerce_list kw)) a \<and>
           doublings M (length (coerce_list tf)) b \<and>
           doublings M (length (coerce_list g)) c \<and>
           encodeItems kw tf g =
             Some (Inr (build_items (copies (2 ^ a) (coerce_list kw))
               (copies (2 ^ b) (coerce_list tf)) (copies (2 ^ c) (coerce_list g))))"
proof -
  from ek have "coerce_list kw \<noteq> []" by (auto dest: evenly_divides_pos)
  from double_until_closed [OF this, of M] obtain a where
    a: "double_until M (coerce_list kw) = Some (copies (2 ^ a) (coerce_list kw))"
       "doublings M (length (coerce_list kw)) a" by blast
  from et have "coerce_list tf \<noteq> []" by (auto dest: evenly_divides_pos)
  from double_until_closed [OF this, of M] obtain b where
    b: "double_until M (coerce_list tf) = Some (copies (2 ^ b) (coerce_list tf))"
       "doublings M (length (coerce_list tf)) b" by blast
  from eg have "coerce_list g \<noteq> []" by (auto dest: evenly_divides_pos)
  from double_until_closed [OF this, of M] obtain c where
    c: "double_until M (coerce_list g) = Some (copies (2 ^ c) (coerce_list g))"
       "doublings M (length (coerce_list g)) c" by blast
  have "encodeItems kw tf g =
          Some (Inr (build_items (copies (2 ^ a) (coerce_list kw))
            (copies (2 ^ b) (coerce_list tf)) (copies (2 ^ c) (coerce_list g))))"
    using ek et eg a(1) b(1) c(1) unfolding encodeItems_def Let_def M [symmetric]
    by simp
  with a(2) b(2) c(2) show ?thesis by blast
qed

lemma js_index_copies:
  "0 < length xs \<Longrightarrow> i < n * length xs \<Longrightarrow>
     js_index (copies n xs) i = Some (xs ! (i mod length xs))"
  by (simp add: js_index_def length_copies nth_copies)

lemma encodeItems_power_of_two:
  assumes pk: "M = 2 ^ a * length (coerce_list kw)"
    and pt: "M = 2 ^ b * length (coerce_list tf)"
    and pg: "M = 2 ^ c * length (coerce_list g)"
    and pos: "0 < M"
    and M: "M = max (length (coerce_list kw))
               (max (length (coerce_list tf)) (length (coerce_list g)))"
  shows "\<exists>items. encodeItems kw tf g = Some (Inr items) \<and> length items = M \<and>
           (\<forall>i<M. items ! i =
              \<lparr>keyword = Some (coerce_list kw ! (i mod length (coerce_list kw))),
               time = Some (coerce_list tf ! (i mod length (coerce_list tf))),
               geo = Some (coerce_list g ! (i mod length (coerce_list g)))\<rparr>)"
proof -
  let ?ks = "coerce_list kw" and ?ts = "coerce_list tf" and ?gs = "coerce_list g"
  from pk pos have lk: "0 < length ?ks" by (cases "length ?ks") simp_all
  from pt pos have lt: "0 < length ?ts" by (cases "length ?ts") simp_all
  from pg pos have lg: "0 < length ?gs" by (cases "length ?gs") simp_all
  have ek: "evenly_divides (length ?ks) M" using pk lk by (simp add: evenly_divides_iff)
  have et: "evenly_divides (length ?ts) M" using pt lt by (simp add: evenly_divides_iff)
  have eg: "evenly_divides (length ?gs) M" using pg lg by (simp add: evenly_divides_iff)
  from encodeItems_accept [OF ek et eg M] obtain a' b' c' where
    d: "doublings M (length ?ks) a'" "doublings M (length ?ts) b'"
       "doublings M (length ?gs) c'" and
    r: "encodeItems kw tf g =
          Some (Inr (build_items (copies (2 ^ a') ?ks) (copies (2 ^ b') ?ts)
            (copies (2 ^ c') ?gs)))" by blast
  have a': "a' = a" using doublings_exact [OF pk lk d(1)] .
  have b': "b' = b" using doublings_exact [OF pt lt d(2)] .
  have c': "c' = c" using doublings_exact [OF pg lg d(3)] .
  let ?items = "build_items (copies (2 ^ a) ?ks) (copies (2 ^ b) ?ts) (copies (2 ^ c) ?gs)"
  have len: "length ?items = M"
    using pk by (simp add: build_items_def length_copies)
  have "?items ! i =
      \<lparr>keyword = Some (?ks ! (i mod length ?ks)), time = Some (?ts ! (i mod length ?ts)),
       geo = Some (?gs ! (i mod length ?gs))\<rparr>" if "i < M" for i
  proof -
    from that pk have ik: "i < 2 ^ a * length ?ks" by simp
    from that pt have it: "i < 2 ^ b * length ?ts" by simp
    from that pg have ig: "i < 2 ^ c * length ?gs" by simp
    from ik have "?items ! i =
        \<lparr>keyword = js_index (copies (2 ^ a) ?ks) i, time = js_index (copies (2 ^ b) ?ts) i,
         geo = js_index (copies (2 ^ c) ?gs) i\<rparr>"
      by (simp add: build_items_def length_copies)
    then show ?thesis
      by (simp add: js_index_copies [OF lk ik] js_index_copies [OF lt it]
          js_index_copies [OF lg ig])
  qed
  with len r a' b' c' show ?thesis by blast
qed

lemma encodeItems_overshoot:
  "encodeItems (Scalar k) (Array [t0, t1, t2]) (Scalar r) =
     Some (Inr [\<lparr>keyword = Some k, time = Some t0, geo = Some r\<rparr>,
                \<lparr>keyword = Some k, time = Some t1, geo = Some r\<rparr>,
                \<lparr>keyword = Some k, time = Some t2, geo = Some r\<rparr>,
                \<lparr>keyword = Some k, time = None, geo = Some r\<rparr>])"
proof -
  have k: "double_until (Suc (Suc (Suc 0))) [k] = Some [k, k, k, k]"
    by (simp add: double_until.simps)
  have r: "double_until (Suc (Suc (Suc 0))) [r] = Some [r, r, r, r]"
    by (simp add: double_until.simps)
  have t: "double_until (Suc (Suc (Suc 0))) [t0, t1, t2] = Some [t0, t1, t2]"
    by (simp add: double_until.simps)
  have u: "[0..<Suc (Suc (Suc (Suc 0)))] = [0, Suc 0, Suc (Suc 0), Suc (Suc (Suc 0))]"
    by (simp add: upt_rec)
  show ?thesis
    by (simp add: encodeItems_def evenly_divides_def js_rem_def k r t build_items_def
        js_index_def u)
qed

text \<open>
  Claim C3. The three inputs are coerced to lists; \<open>M\<close> is the largest of the three
  lengths. If some length does not evenly divide \<open>M\<close> (\<open>M % len === 0\<close> is false, which
  includes \<open>len = 0\<close>), the call fails with the ambiguous-size error carrying all three
  lengths. Otherwise every list is replaced by \<open>2 ^ k\<close> copies of itself, \<open>k\<close> being the
  number of doublings needed to reach length \<open>M\<close>, and the items are read off
  position by position (a position past the end of a list reads \<open>undefined\<close>). If
  \<open>M\<close> is a power of two times each length, there are exactly \<open>M\<close> items and item \<open>i\<close>
  holds element \<open>i mod len\<close> of each input. For other ratios the result can be longer
  than \<open>M\<close>: lengths 1, 3, 1 give four items, the fourth without a timeframe.
\<close>

theorem encodeItems_alignment:
  assumes "M = max (length (coerce_list kw))
               (max (length (coerce_list tf)) (length (coerce_list g)))"
  shows "(\<not> (evenly_divides (length (coerce_list kw)) M \<and>
             evenly_divides (length (coerce_list tf)) M \<and>
             evenly_divides (length (coerce_list g)) M) \<longrightarrow>
          encodeItems kw tf g =
            Some (Inl (AmbiguousCombinationSize
              [length (coerce_list kw), length (coerce_list tf), length (coerce_list g)])))
       \<and> (evenly_divides (length (coerce_list kw)) M \<and>
          evenly_divides (length (coerce_list tf)) M \<and>
          evenly_divides (length (coerce_list g)) M \<longrightarrow>
          (\<exists>a b c. doublings M (length (coerce_list kw)) a \<and>
             doublings M (length (coerce_list tf)) b \<and>
             doublings M (length (coerce_list g)) c \<and>
             encodeItems kw tf g =
               Some (Inr (build_items (copies (2 ^ a) (coerce_list kw))
                 (copies (2 ^ b) (coerce_list tf)) (copies (2 ^ c) (coerce_list g))))))
       \<and> (0 < M \<and> (\<exists>a. M = 2 ^ a * length (coerce_list kw)) \<and>
          (\<exists>b. M = 2 ^ b * length (coerce_list tf)) \<and>
          (\<exists>c. M = 2 ^ c * length (coerce_list g)) \<longrightarrow>
          (\<exists>items. encodeItems kw tf g = Some (Inr items) \<and> length items = M \<and>
             (\<forall>i<M. items ! i =
                \<lparr>keyword = Some (coerce_list kw ! (i mod length (coerce_list kw))),
                 time = Some (coerce_list tf ! (i mod length (coerce_list tf))),
                 geo = Some (coerce_list g ! (i mod length (coerce_list g)))\<rparr>)))
       \<and> encodeItems (Scalar k) (Array [t0, t1, t2]) (Scalar r) =
            Some (Inr [\<lparr>keyword = Some k, time = Some t0, geo = Some r\<rparr>,
                       \<lparr>keyword = Some k, time = Some t1, geo = Some r\<rparr>,
                       \<lparr>keyword = Some k, time = Some t2, geo = Some r\<rparr>,
                       \<lparr>keyword = Some k, time = None, geo = Some r\<rparr>])"
proof (intro conjI impI)
  assume "\<not> (evenly_divides (length (coerce_list kw)) M \<and>
             evenly_divides (length (coerce_list tf)) M \<and>
             evenly_divides (length (coerce_list g)) M)"
  then show "encodeItems kw tf g =
            Some (Inl (AmbiguousCombinationSize
              [length (coerce_list kw), length (coerce_list tf), length (coerce_list g)]))"
    using assms by (rule encodeItems_reject)
next
  assume "evenly_divides (length (coerce_list kw)) M \<and>
          evenly_divides (length (coerce_list tf)) M \<and>
          evenly_divides (length (coerce_list g)) M"
  then show "\<exists>a b c. doublings M (length (coerce_list kw)) a \<and>
             doublings M (length (coerce_list tf)) b \<and>
             doublings M (length (coerce_list g)) c \<and>
             encodeItems kw tf g =
               Some (Inr (build_items (copies (2 ^ a) (coerce_list kw))
                 (copies (2 ^ b) (coerce_list tf)) (copies (2 ^ c) (coerce_list g))))"
    using assms by (blast intro: encodeItems_accept)
next
  assume h: "0 < M \<and> (\<exists>a. M = 2 ^ a * length (coerce_list kw)) \<and>
          (\<exists>b. M = 2 ^ b * length (coerce_list tf)) \<and>
          (\<exists>c. M = 2 ^ c * length (coerce_list g))"
  then obtain a b c where "M = 2 ^ a * length (coerce_list kw)"
    "M = 2 ^ b * length (coerce_list tf)" "M = 2 ^ c * length (coerce_list g)" by blast
  moreover from h have "0 < M" by simp
  ultimately show "\<exists>items. encodeItems kw tf g = Some (Inr items) \<and> length items = M \<and>
             (\<forall>i<M. items ! i =
                \<lparr>keyword = Some (coerce_list kw ! (i mod length (coerce_list kw))),
                 time = Some (coerce_list tf ! (i mod length (coerce_list tf))),
                 geo = Some (coerce_list g ! (i mod length (coerce_list g)))\<rparr>)"
    using assms by (rule encodeItems_power_of_two)
next
  show "encodeItems (Scalar k) (Array [t0, t1, t2]) (Scalar r) =
            Some (Inr [\<lparr>keyword = Some k, time = Some t0, geo = Some r\<rparr>,
                       \<lparr>keyword = Some k, time = Some t1, geo = Some r\<rparr>,
                       \<lparr>keyword = Some k, time = Some t2, geo = Some r\<rparr>,
                       \<lparr>keyword = Some k, time = None, geo = Some r\<rparr>])"
    by (rule encodeItems_overshoot)
qed

theorem encodeItems_alignment_witness:
  "encodeItems (Array [''a'', ''b'', ''c'']) (Scalar ''today 12-m'') (Array [''US'', ''GB''])
     = Some (Inl (AmbiguousCombinationSize [3, 1, 2]))
   \<and> (\<exists>items. encodeItems (Array [''a'', ''b'']) (Scalar ''today 12-m'')
         (Array [''US'', ''GB'', ''DE'', ''FR'']) = Some (Inr items) \<and>
       length items = 4 \<and>
       items ! 3 = \<lparr>keyword = Some ''b'', time = Some ''today 12-m'', geo = Some ''FR''\<rparr>)"
proof -
  let ?kw = "Array [''a'', ''b'']" and ?tf = "Scalar ''today 12-m''"
    and ?g = "Array [''US'', ''GB'', ''DE'', ''FR'']"
  have m: "(4::nat) = max (length (coerce_list ?kw))
               (max (length (coerce_list ?tf)) (length (coerce_list ?g)))" by simp
  have h: "0 < (4::nat) \<and> (\<exists>a. (4::nat) = 2 ^ a * length (coerce_list ?kw)) \<and>
          (\<exists>b. (4::nat) = 2 ^ b * length (coerce_list ?tf)) \<and>
          (\<exists>c. (4::nat) = 2 ^ c * length (coerce_list ?g))"
  proof (intro conjI)
    show "\<exists>a. (4::nat) = 2 ^ a * length (coerce_list ?kw)" by (rule exI [of _ 1]) simp
    show "\<exists>b. (4::nat) = 2 ^ b * length (coerce_list ?tf)" by (rule exI [of _ 2]) simp
    show "\<exists>c. (4::nat) = 2 ^ c * length (coerce_list ?g)" by (rule exI [of _ 0]) simp
  qed simp
  from encodeItems_alignment [of 4 ?kw ?tf ?g, OF m, THEN conjunct2, THEN conjunct2,
      THEN conjunct1, THEN mp, OF h]
  obtain items where
    i: "encodeItems ?kw ?tf ?g = Some (Inr items)" "length items = 4" and
    a: "\<And>i. i < 4 \<Longrightarrow> items ! i =
          \<lparr>keyword = Some (coerce_list ?kw ! (i mod length (coerce_list ?kw))),
           time = Some (coerce_list ?tf ! (i mod length (coerce_list ?tf))),
           geo = Some (coerce_list ?g ! (i mod length (coerce_list ?g)))\<rparr>"
    by (elim exE conjE) (rule that, assumption+, simp)
  have "(3::nat) < 4" by simp
  from a [OF this] have "items ! 3 =
      \<lparr>keyword = Some ''b'', time = Some ''today 12-m'', geo = Some ''FR''\<rparr>"
    by (simp add: numeral_2_eq_2 [symmetric])
  with i have ok: "\<exists>items. encodeItems ?kw ?tf ?g = Some (Inr items) \<and>
       length items = 4 \<and>
       items ! 3 = \<lparr>keyword = Some ''b'', time = Some ''today 12-m'', geo = Some ''FR''\<rparr>"
    by (intro exI conjI)
  let ?kw' = "Array [''a'', ''b'', ''c'']" and ?g' = "Array [''US'', ''GB'']"
  have m': "(3::nat) = max (length (coerce_list ?kw'))
               (max (length (coerce_list ?tf)) (length (coerce_list ?g')))" by simp
  have h': "\<not> (evenly_divides (length (coerce_list ?kw')) 3 \<and>
             evenly_divides (length (coerce_list ?tf)) 3 \<and>
             evenly_divides (length (coerce_list ?g')) 3)"
    by (simp add: evenly_divides_def js_rem_def numeral_2_eq_2 [symmetric])
  from encodeItems_alignment [of 3 ?kw' ?tf ?g', OF m', THEN conjunct1, THEN mp, OF h']
  have "encodeItems ?kw' ?tf ?g' = Some (Inl (AmbiguousCombinationSize [3, 1, 2]))"
    by simp
  with ok show ?thesis by (intro conjI)
qed

section \<open>Properties of the timeframe utilities\<close>

subsection \<open>Resolution buckets\<close>

lemma resolution_of_hours_valid:
  "resolution_of_hours (Some h) =
     (if h < 5 then (''1 minute'', ''delta < 5 hours'')
      else if h < 36 then (''8 minutes'', ''5 hours <= delta < 36 hours'')
      else if h < 72 then (''16 minutes'', ''36 hours <= delta < 72 hours'')
      else if h < 192 then (''1 hour'', ''72 hours <= delta < 8 days'')
      else if h < 6480 then (''1 day'', ''8 days <= delta < 270 days'')
      else if h < 45600 then (''1 week'', ''270 days <= delta < 1900 days'')
      else (''1 month'', ''delta >= 1900 days''))"
  by (simp add: resolution_of_hours_def js_lt_def)

lemma resolution_of_hours_buckets:
  "\<exists>b r. resolution_of_hours (Some h) = (b, r) \<and>
     (b = ''1 minute'' \<longleftrightarrow> h < 5) \<and>
     (b = ''8 minutes'' \<longleftrightarrow> 5 \<le> h \<and> h < 36) \<and>
     (b = ''16 minutes'' \<longleftrightarrow> 36 \<le> h \<and> h < 72) \<and>
     (b = ''1 hour'' \<longleftrightarrow> 72 \<le> h \<and> h < 192) \<and>
     (b = ''1 day'' \<longleftrightarrow> 192 \<le> h \<and> h < 6480) \<and>
     (b = ''1 week'' \<longleftrightarrow> 6480 \<le> h \<and> h < 45600) \<and>
     (b = ''1 month'' \<longleftrightarrow> 45600 \<le> h)"
  unfolding resolution_of_hours_valid
  by (simp split: if_splits)

lemma resolution_of_hours_nan:
  "resolution_of_hours None = (''1 month'', ''delta >= 1900 days'')"
  by (simp add: resolution_of_hours_def js_lt_def)

lemma getResolutionAndRange_buckets:
  assumes "timeframeToDuration clock tf = Inr (Millis ms)"
  shows "\<exists>b r. getResolutionAndRange clock tf = Inr (b, r) \<and>
     (b = ''1 minute'' \<longleftrightarrow> of_int ms / 3600000 < (5::rat)) \<and>
     (b = ''8 minutes'' \<longleftrightarrow> (5::rat) \<le> of_int ms / 3600000 \<and> of_int ms / 3600000 < (36::rat)) \<and>
     (b = ''16 minutes'' \<longleftrightarrow> (36::rat) \<le> of_int ms / 3600000 \<and> of_int ms / 3600000 < (72::rat)) \<and>
     (b = ''1 hour'' \<longleftrightarrow> (72::rat) \<le> of_int ms / 3600000 \<and> of_int ms / 3600000 < (192::rat)) \<and>
     (b = ''1 day'' \<longleftrightarrow> (192::rat) \<le> of_int ms / 3600000 \<and> of_int ms / 3600000 < (6480::rat)) \<and>
     (b = ''1 week'' \<longleftrightarrow> (6480::rat) \<le> of_int ms / 3600000 \<and> of_int ms / 3600000 < (45600::rat)) \<and>
     (b = ''1 month'' \<longleftrightarrow> (45600::rat) \<le> of_int ms / 3600000)"
proof -
  have "getResolutionAndRange clock tf =
      Inr (resolution_of_hours (Some (of_int ms / 3600000)))"
    using assms by (simp add: getResolutionAndRange_def as_hours_def)
  then show ?thesis
    using resolution_of_hours_buckets [of "of_int ms / 3600000"] by simp
qed

text \<open>
  Claim C8. \<open>getResolutionAndRange\<close> fails as the conversion of the timeframe fails.
  Otherwise the duration \<open>h\<close> of the timeframe in hours decides the bucket by strict
  thresholds: ``1 minute'' exactly when \<open>h < 5\<close>, ``8 minutes'' exactly when
  \<open>5 \<le> h < 36\<close>, ``16 minutes'' exactly when \<open>36 \<le> h < 72\<close>, ``1 hour'' exactly when
  \<open>72 \<le> h < 192\<close>, ``1 day'' exactly when \<open>192 \<le> h < 6480\<close>, ``1 week'' exactly when
  \<open>6480 \<le> h < 45600\<close> and ``1 month'' exactly when \<open>45600 \<le> h\<close>; a duration at a
  threshold is therefore in the bucket above it. A duration that is not a number (an
  endpoint is not a calendar date) compares false everywhere and lands in ``1 month''.
\<close>

theorem getResolutionAndRange_thresholds:
  "(\<forall>e. timeframeToDuration clock tf = Inl e \<longrightarrow> getResolutionAndRange clock tf = Inl e)
   \<and> (timeframeToDuration clock tf = Inr InvalidDuration \<longrightarrow>
        getResolutionAndRange clock tf = Inr (''1 month'', ''delta >= 1900 days''))
   \<and> (\<forall>ms (h::rat). timeframeToDuration clock tf = Inr (Millis ms) \<and> h = of_int ms / 3600000 \<longrightarrow>
        (\<exists>b r. getResolutionAndRange clock tf = Inr (b, r) \<and>
           (b = ''1 minute'' \<longleftrightarrow> h < 5) \<and>
           (b = ''8 minutes'' \<longleftrightarrow> 5 \<le> h \<and> h < 36) \<and>
           (b = ''16 minutes'' \<longleftrightarrow> 36 \<le> h \<and> h < 72) \<and>
           (b = ''1 hour'' \<longleftrightarrow> 72 \<le> h \<and> h < 192) \<and>
           (b = ''1 day'' \<longleftrightarrow> 192 \<le> h \<and> h < 6480) \<and>
           (b = ''1 week'' \<longleftrightarrow> 6480 \<le> h \<and> h < 45600) \<and>
           (b = ''1 month'' \<longleftrightarrow> 45600 \<le> h)))"
proof (intro conjI allI impI)
  fix e assume "timeframeToDuration clock tf = Inl e"
  then show "getResolutionAndRange clock tf = Inl e"
    by (simp add: getResolutionAndRange_def)
next
  assume "timeframeToDuration clock tf = Inr InvalidDuration"
  then show "getResolutionAndRange clock tf = Inr (''1 month'', ''delta >= 1900 days'')"
    by (simp add: getResolutionAndRange_def as_hours_def resolution_of_hours_nan)
next
  fix ms :: int and h :: rat
  assume a: "timeframeToDuration clock tf = Inr (Millis ms) \<and> h = of_int ms / 3600000"
  from a have t: "timeframeToDuration clock tf = Inr (Millis ms)" by (rule conjunct1)
  from a have hh: "h = of_int ms / 3600000" by (rule conjunct2)
  show "\<exists>b r. getResolutionAndRange clock tf = Inr (b, r) \<and>
           (b = ''1 minute'' \<longleftrightarrow> h < 5) \<and>
           (b = ''8 minutes'' \<longleftrightarrow> 5 \<le> h \<and> h < 36) \<and>
           (b = ''16 minutes'' \<longleftrightarrow> 36 \<le> h \<and> h < 72) \<and>
           (b = ''1 hour'' \<longleftrightarrow> 72 \<le> h \<and> h < 192) \<and>
           (b = ''1 day'' \<longleftrightarrow> 192 \<le> h \<and> h < 6480) \<and>
           (b = ''1 week'' \<longleftrightarrow> 6480 \<le> h \<and> h < 45600) \<and>
           (b = ''1 month'' \<longleftrightarrow> 45600 \<le> h)"
    unfolding hh by (rule getResolutionAndRange_buckets [OF t])
qed

theorem getResolutionAndRange_thresholds_witness:
  "timeframeToDuration 1730000000000 ''2024-09-12T23 5-H'' = Inr (Millis 18000000)
   \<and> (\<exists>r. getResolutionAndRange 1730000000000 ''2024-09-12T23 5-H'' = Inr (''8 minutes'', r))"
proof -
  have d: "timeframeToDuration 1730000000000 ''2024-09-12T23 5-H'' = Inr (Millis 18000000)"
    by code_simp
  have h: "(5::rat) = of_int 18000000 / 3600000" by simp
  from getResolutionAndRange_thresholds [of 1730000000000 "''2024-09-12T23 5-H''",
      THEN conjunct2, THEN conjunct2, THEN spec, THEN spec, THEN mp, OF conjI, OF d h]
  obtain b r where
    g: "getResolutionAndRange 1730000000000 ''2024-09-12T23 5-H'' = Inr (b, r)" and
    b: "b = ''8 minutes'' \<longleftrightarrow> (5::rat) \<le> 5 \<and> (5::rat) < 36"
    by (elim exE conjE) (rule that, assumption+)
  from b have "b = ''8 minutes''" by simp
  with g d show ?thesis by (intro conjI exI) simp_all
qed

subsection \<open>Compatible resolutions\<close>

lemma remdups_many: "1 < length (remdups zs) \<longleftrightarrow> (\<exists>a\<in>set zs. \<exists>b\<in>set zs. a \<noteq> b)"
proof -
  have "length (remdups zs) = card (set zs)" by (simp add: length_remdups_card_conv)
  moreover have "1 < card (set zs) \<longleftrightarrow> (\<exists>a\<in>set zs. \<exists>b\<in>set zs. a \<noteq> b)"
  proof
    assume "1 < card (set zs)"
    then show "\<exists>a\<in>set zs. \<exists>b\<in>set zs. a \<noteq> b"
      using card_le_Suc0_iff_eq [of "set zs"] by (auto simp: not_le [symmetric])
  next
    assume "\<exists>a\<in>set zs. \<exists>b\<in>set zs. a \<noteq> b"
    then obtain a b where "a \<in> set zs" "b \<in> set zs" "a \<noteq> b" by blast
    then have "\<not> card (set zs) \<le> Suc 0"
      using card_le_Suc0_iff_eq [of "set zs"] by auto
    then show "1 < card (set zs)" by simp
  qed
  ultimately show ?thesis by simp
qed

lemma pick_min_tag: "pick_min (tag a) (tag b) = tag (int_min a b)"
  by (simp add: pick_min_def tag_def int_min_def js_lt_def as_milliseconds_def)

lemma pick_max_tag: "pick_max (tag a) (tag b) = tag (int_max a b)"
  by (simp add: pick_max_def tag_def int_max_def js_gt_def as_milliseconds_def)

lemma foldl_pick_min_tag: "foldl pick_min (tag a) (map tag ps) = tag (foldl int_min a ps)"
  by (induction ps arbitrary: a) (simp_all add: pick_min_tag)

lemma foldl_pick_max_tag: "foldl pick_max (tag a) (map tag ps) = tag (foldl int_max a ps)"
  by (induction ps arbitrary: a) (simp_all add: pick_max_tag)

lemma foldl_int_min:
  "foldl int_min a ps \<in> insert a (set ps) \<and>
   fst (foldl int_min a ps) \<le> fst a \<and> (\<forall>p\<in>set ps. fst (foldl int_min a ps) \<le> fst p)"
proof (induction ps arbitrary: a)
  case Nil
  show ?case by simp
next
  case (Cons p ps)
  show ?case
  proof (cases "fst p < fst a")
    case True
    then have s: "foldl int_min a (p # ps) = foldl int_min p ps" by (simp add: int_min_def)
    from Cons.IH [of p] True show ?thesis unfolding s by auto
  next
    case False
    then have s: "foldl int_min a (p # ps) = foldl int_min a ps" by (simp add: int_min_def)
    from Cons.IH [of a] False show ?thesis unfolding s by auto
  qed
qed

lemma foldl_int_max:
  "foldl int_max a ps \<in> insert a (set ps) \<and>
   fst a \<le> fst (foldl int_max a ps) \<and> (\<forall>p\<in>set ps. fst p \<le> fst (foldl int_max a ps))"
proof (induction ps arbitrary: a)
  case Nil
  show ?case by simp
next
  case (Cons p ps)
  show ?case
  proof (cases "fst p > fst a")
    case True
    then have s: "foldl int_max a (p # ps) = foldl int_max p ps" by (simp add: int_max_def)
    from Cons.IH [of p] True show ?thesis unfolding s by auto
  next
    case False
    then have s: "foldl int_max a (p # ps) = foldl int_max a ps" by (simp add: int_max_def)
    from Cons.IH [of a] False show ?thesis unfolding s by auto
  qed
qed

lemma foldl_int_min_Min:
  assumes "ps \<noteq> []"
  shows "foldl int_min (hd ps) ps \<in> set ps \<and> fst (foldl int_min (hd ps) ps) = Min (fst ` set ps)"
proof -
  from assms have h: "hd ps \<in> set ps" by simp
  with foldl_int_min [of "hd ps" ps] have
    m: "foldl int_min (hd ps) ps \<in> set ps" and
    l: "\<forall>p\<in>set ps. fst (foldl int_min (hd ps) ps) \<le> fst p" by auto
  have "Min (fst ` set ps) = fst (foldl int_min (hd ps) ps)"
  proof (rule Min_eqI)
    show "finite (fst ` set ps)" by simp
    show "\<And>y. y \<in> fst ` set ps \<Longrightarrow> fst (foldl int_min (hd ps) ps) \<le> y" using l by auto
    show "fst (foldl int_min (hd ps) ps) \<in> fst ` set ps" using m by (rule imageI)
  qed
  with m show ?thesis by simp
qed

lemma foldl_int_max_Max:
  assumes "ps \<noteq> []"
  shows "foldl int_max (hd ps) ps \<in> set ps \<and> fst (foldl int_max (hd ps) ps) = Max (fst ` set ps)"
proof -
  from assms have h: "hd ps \<in> set ps" by simp
  with foldl_int_max [of "hd ps" ps] have
    m: "foldl int_max (hd ps) ps \<in> set ps" and
    l: "\<forall>p\<in>set ps. fst p \<le> fst (foldl int_max (hd ps) ps)" by auto
  have "Max (fst ` set ps) = fst (foldl int_max (hd ps) ps)"
  proof (rule Max_eqI)
    show "finite (fst ` set ps)" by simp
    show "\<And>y. y \<in> fst ` set ps \<Longrightarrow> y \<le> fst (foldl int_max (hd ps) ps)" using l by auto
    show "fst (foldl int_max (hd ps) ps) \<in> fst ` set ps" using m by (rule imageI)
  qed
  with m show ?thesis by simp
qed


lemma distinct_images:
  "(\<exists>a\<in>set (map f rs). \<exists>b\<in>set (map f rs). a \<noteq> b) \<longleftrightarrow>
   (\<exists>a\<in>set rs. \<exists>b\<in>set rs. f a \<noteq> f b)"
  by auto

lemma map_throwing_length: "map_throwing f xs = Inr ys \<Longrightarrow> length ys = length xs"
  by (induction xs arbitrary: ys) (auto split: sum.splits)

lemma zip_Millis: "zip (map Millis xs) tfs = map tag (zip xs tfs)"
proof (induction xs arbitrary: tfs)
  case Nil
  show ?case by simp
next
  case (Cons a xs)
  then show ?case by (cases tfs) (simp_all add: tag_def)
qed

lemma fst_set_zip: "length xs = length ys \<Longrightarrow> fst ` set (zip xs ys) = set xs"
  by (induction xs ys rule: list_induct2) auto

lemma checkTimeframeResolution_different:
  assumes R: "map_throwing (getResolutionAndRange clock) (ensureList arg) = Inr rs"
    and D: "map_throwing (timeframeToDuration clock) (ensureList arg) = Inr ds"
    and ne: "\<exists>a\<in>set rs. \<exists>b\<in>set rs. fst a \<noteq> fst b"
  shows "checkTimeframeResolution clock arg =
     Inl (DifferentResolutions
       (map (\<lambda>(timeframe, d, r). (timeframe, millis_of d, fst r, snd r))
          (zip (ensureList arg) (zip ds rs))))"
proof -
  from ne have "\<exists>a\<in>set (map fst rs). \<exists>b\<in>set (map fst rs). a \<noteq> b"
    unfolding distinct_images .
  then have "1 < length (remdups (map fst rs))" by (simp only: remdups_many)
  then show ?thesis
    by (simp add: checkTimeframeResolution_def R D Let_def)
qed

lemma checkTimeframeResolution_same:
  assumes R: "map_throwing (getResolutionAndRange clock) (ensureList arg) = Inr rs"
    and D: "map_throwing (timeframeToDuration clock) (ensureList arg) = Inr (map Millis xs)"
    and nonempty: "ensureList arg \<noteq> []"
    and same: "\<not> (\<exists>a\<in>set rs. \<exists>b\<in>set rs. fst a \<noteq> fst b)"
  shows "\<exists>tmin tmax.
     (Min (set xs), tmin) \<in> set (zip xs (ensureList arg)) \<and>
     (Max (set xs), tmax) \<in> set (zip xs (ensureList arg)) \<and>
     checkTimeframeResolution clock arg =
       (if 2 * Min (set xs) \<le> Max (set xs)
        then Inl (ResolutionRatioTooLarge (Some (Max (set xs))) tmax (Some (Min (set xs))) tmin)
        else Inr ())"
proof -
  let ?tfs = "ensureList arg"
  let ?ps = "zip xs ?tfs"
  from map_throwing_length [OF D] have len: "length xs = length ?tfs" by simp
  with nonempty have ps: "?ps \<noteq> []" by (cases xs; cases ?tfs) simp_all
  then obtain p ps' where cons: "?ps = p # ps'" by (cases ?ps) auto
  then have hd: "hd ?ps = p" by simp
  define pmin where "pmin = foldl int_min (hd ?ps) ?ps"
  define pmax where "pmax = foldl int_max (hd ?ps) ?ps"
  from foldl_int_min_Min [OF ps] have
    mn: "pmin \<in> set ?ps" "fst pmin = Min (set xs)"
    by (simp_all add: pmin_def fst_set_zip [OF len])
  from foldl_int_max_Max [OF ps] have
    mx: "pmax \<in> set ?ps" "fst pmax = Max (set xs)"
    by (simp_all add: pmax_def fst_set_zip [OF len])
  from same have "\<not> (\<exists>a\<in>set (map fst rs). \<exists>b\<in>set (map fst rs). a \<noteq> b)"
    unfolding distinct_images .
  then have one: "\<not> 1 < length (remdups (map fst rs))" unfolding remdups_many .
  have z: "zip (map Millis xs) ?tfs = tag p # map tag ps'"
    by (simp add: zip_Millis cons)
  have fmin: "foldl pick_min (tag p) (tag p # map tag ps') = tag pmin"
    using foldl_pick_min_tag [of p "p # ps'"] by (simp add: pmin_def cons)
  have fmax: "foldl pick_max (tag p) (tag p # map tag ps') = tag pmax"
    using foldl_pick_max_tag [of p "p # ps'"] by (simp add: pmax_def cons)
  have ge: "js_ge (as_milliseconds (Millis (fst pmax)))
              (js_times (as_milliseconds (Millis (fst pmin))) 2)
            \<longleftrightarrow> 2 * fst pmin \<le> fst pmax"
  proof -
    have "(rat_of_int (fst pmin) * 2 \<le> rat_of_int (fst pmax)) = (2 * fst pmin \<le> fst pmax)"
    proof -
      have "rat_of_int (fst pmin) * 2 = rat_of_int (2 * fst pmin)" by simp
      then show ?thesis by (simp only: of_int_le_iff)
    qed
    then show ?thesis by (simp add: js_ge_def js_times_def as_milliseconds_def)
  qed
  have "checkTimeframeResolution clock arg =
       (if 2 * fst pmin \<le> fst pmax
        then Inl (ResolutionRatioTooLarge (Some (fst pmax)) (snd pmax) (Some (fst pmin)) (snd pmin))
        else Inr ())"
  proof -
    have t1: "tag pmin = (Millis (fst pmin), snd pmin)" by (simp add: tag_def)
    have t2: "tag pmax = (Millis (fst pmax), snd pmax)" by (simp add: tag_def)
    have m1: "millis_of (Millis (fst pmin)) = Some (fst pmin)" by (simp add: millis_of_def)
    have m2: "millis_of (Millis (fst pmax)) = Some (fst pmax)" by (simp add: millis_of_def)
    have "checkTimeframeResolution clock arg =
       (let (minDuration, minTimeframe) = tag pmin;
            (maxDuration, maxTimeframe) = tag pmax
        in if js_ge (as_milliseconds maxDuration) (js_times (as_milliseconds minDuration) 2)
           then Inl (ResolutionRatioTooLarge (millis_of maxDuration)
                      maxTimeframe (millis_of minDuration) minTimeframe)
           else Inr ())"
      unfolding checkTimeframeResolution_def Let_def R D sum.case z list.case fmin fmax
      using one by simp
    then show ?thesis
      unfolding t1 t2 Let_def prod.case ge m1 m2 .
  qed
  moreover have "(Min (set xs), snd pmin) \<in> set ?ps"
    using mn(1) unfolding mn(2) [symmetric] by simp
  moreover have "(Max (set xs), snd pmax) \<in> set ?ps"
    using mx(1) unfolding mx(2) [symmetric] by simp
  ultimately show ?thesis unfolding mn(2) mx(2) by (intro exI conjI)
qed


subsection \<open>Date-like and offset-like texts\<close>

lemma match_digits_Some:
  "match_digits n s = Some (ds, r) \<Longrightarrow> s = ds @ r \<and> length ds = n \<and> list_all is_digit ds"
  by (auto simp: match_digits_def split: if_splits)

lemma match_char_Some: "match_char c s = Some r \<Longrightarrow> s = c # r"
  by (auto simp: match_char_def split: list.splits if_splits)

lemma match_date_Some:
  assumes "match_date s = Some ((y, m, d), r)"
  shows "s = y @ ''-'' @ m @ ''-'' @ d @ r \<and> length y = 4 \<and> length m = 2 \<and> length d = 2 \<and>
         list_all is_digit y \<and> list_all is_digit m \<and> list_all is_digit d"
proof -
  from assms obtain r1 r2 r3 r4 where
    a: "match_digits 4 s = Some (y, r1)" and b: "match_char CHR ''-'' r1 = Some r2" and
    c: "match_digits 2 r2 = Some (m, r3)" and e: "match_char CHR ''-'' r3 = Some r4" and
    f: "match_digits 2 r4 = Some (d, r)"
    by (auto simp: match_date_def split: bind_splits)
  from match_digits_Some [OF a] match_char_Some [OF b] match_digits_Some [OF c]
    match_char_Some [OF e] match_digits_Some [OF f]
  show ?thesis by simp
qed

lemma match_hour_Some:
  assumes "match_hour s = Some h"
  shows "s = CHR ''T'' # h \<and> length h = 2 \<and> list_all is_digit h"
proof -
  from assms obtain r1 r2 where
    a: "match_char CHR ''T'' s = Some r1" and b: "match_digits 2 r1 = Some (h, r2)" and
    c: "r2 = []"
    by (auto simp: match_hour_def split: bind_splits if_splits)
  from match_char_Some [OF a] match_digits_Some [OF b] c show ?thesis by simp
qed

lemma isValidDate_shape:
  assumes "isValidDate a"
  shows "\<exists>y m d r. match_date a = Some ((y, m, d), r) \<and> (r = [] \<or> (\<exists>h. match_hour r = Some h))"
  using assms by (auto simp: isValidDate_def split: option.splits)

lemma isValidDate_chars:
  assumes "isValidDate a"
  shows "list_all date_char a"
proof -
  from isValidDate_shape [OF assms] obtain y m d r where
    md: "match_date a = Some ((y, m, d), r)" and r: "r = [] \<or> (\<exists>h. match_hour r = Some h)"
    by blast
  have dg: "list_all is_digit xs \<Longrightarrow> list_all date_char xs" for xs
    by (induction xs) (simp_all add: date_char_def)
  from r have rr: "list_all date_char r"
  proof
    assume "r = []" then show ?thesis by simp
  next
    assume "\<exists>h. match_hour r = Some h"
    then obtain h where "match_hour r = Some h" ..
    from match_hour_Some [OF this] show ?thesis by (auto simp: dg date_char_def)
  qed
  from match_date_Some [OF md] have
    a: "a = y @ ''-'' @ m @ ''-'' @ d @ r" and
    ds: "list_all is_digit y" "list_all is_digit m" "list_all is_digit d" by simp_all
  show ?thesis
    by (subst a) (simp add: dg ds rr date_char_def)
qed

lemma list_all_last: "xs \<noteq> [] \<Longrightarrow> list_all P xs \<Longrightarrow> P (last xs)"
  by (simp add: list_all_iff)

lemma isValidDate_last_digit:
  assumes "isValidDate a"
  shows "a \<noteq> [] \<and> is_digit (last a)"
proof -
  from isValidDate_shape [OF assms] obtain y m d r where
    md: "match_date a = Some ((y, m, d), r)" and r: "r = [] \<or> (\<exists>h. match_hour r = Some h)"
    by blast
  from match_date_Some [OF md] have
    a: "a = y @ ''-'' @ m @ ''-'' @ d @ r" and d: "length d = 2" "list_all is_digit d"
    by simp_all
  from d have dne: "d \<noteq> []" by auto
  with d have dl: "is_digit (last d)" by (simp add: list_all_last)
  from r show ?thesis
  proof
    assume "r = []"
    with a dne dl show ?thesis by simp
  next
    assume "\<exists>h. match_hour r = Some h"
    then obtain h where "match_hour r = Some h" ..
    from match_hour_Some [OF this] have
      rh: "r = CHR ''T'' # h" and h: "length h = 2" "list_all is_digit h" by simp_all
    from h have hne: "h \<noteq> []" by auto
    with h have "is_digit (last h)" by (simp add: list_all_last)
    with a rh hne show ?thesis by simp
  qed
qed

lemma isValidDate_hd_digit:
  assumes "isValidDate a"
  shows "\<exists>c cs. a = c # cs \<and> is_digit c"
proof -
  from isValidDate_shape [OF assms] obtain y m d r where
    md: "match_date a = Some ((y, m, d), r)" by blast
  from match_date_Some [OF md] have
    a: "a = y @ ''-'' @ m @ ''-'' @ d @ r" and y: "length y = 4" "list_all is_digit y"
    by simp_all
  from y obtain c cs where "y = c # cs" "is_digit c" by (cases y) auto
  with a show ?thesis by simp
qed


lemma replace_first_absent:
  assumes "pat \<noteq> []" and "hd pat \<notin> set s"
  shows "replace_first pat rep s = s"
  using assms(2)
proof (induction s)
  case Nil
  with assms(1) show ?case by simp
next
  case (Cons c cs)
  have "\<not> starts_with pat (c # cs)"
  proof
    assume "starts_with pat (c # cs)"
    then have "take (length pat) (c # cs) = pat" by (simp add: starts_with_def)
    with assms(1) have "hd pat = c" by (cases pat) auto
    with Cons.prems show False by simp
  qed
  with Cons show ?case by simp
qed

lemma split_on_absent: "sep \<notin> set b \<Longrightarrow> split_on sep b = [b]"
  by (induction b) auto

lemma split_on_two:
  "sep \<notin> set a \<Longrightarrow> sep \<notin> set b \<Longrightarrow> split_on sep (a @ sep # b) = [a, b]"
  by (induction a) (auto simp: split_on_absent)

lemma date_char_simps:
  "date_char c \<Longrightarrow> c \<noteq> CHR '' ''" "date_char c \<Longrightarrow> c \<noteq> CHR ''n''"
  "date_char c \<Longrightarrow> c \<noteq> CHR ''t''"
  by (auto simp: date_char_def is_digit_def)

lemma isValidDate_avoids:
  assumes "isValidDate a"
  shows "CHR '' '' \<notin> set a" "CHR ''n'' \<notin> set a" "CHR ''t'' \<notin> set a"
  using isValidDate_chars [OF assms] date_char_simps by (auto simp: list_all_iff)

lemma isValidDate_not_fixed:
  assumes "isValidDate a"
  shows "a @ b \<notin> set FIXED_TIMEFRAMES" "a @ b \<noteq> ''all''"
proof -
  from isValidDate_hd_digit [OF assms] obtain c cs where a: "a = c # cs" "is_digit c" by blast
  then show "a @ b \<notin> set FIXED_TIMEFRAMES" by (auto simp: FIXED_TIMEFRAMES_def is_digit_def)
  from a show "a @ b \<noteq> ''all''" by (auto simp: is_digit_def)
qed

lemma convertTimeframe_parts:
  assumes a: "isValidDate a"
    and b: "CHR '' '' \<notin> set b" "CHR ''n'' \<notin> set b" "CHR ''t'' \<notin> set b"
  shows "convertTimeframe clock (a @ '' '' @ b) flag =
     (if isValidDate b then processTwoDates a b
      else if isValidFormat b then processDateWithOffset a b
      else Inl CouldNotProcessTimeframe)"
proof -
  let ?tf = "a @ '' '' @ b"
  note av = isValidDate_avoids [OF a]
  have n: "CHR ''n'' \<notin> set ?tf" and t: "CHR ''t'' \<notin> set ?tf" using av b by auto
  have r1: "replace_first ''now'' x ?tf = ?tf" for x
    by (rule replace_first_absent) (use n in simp_all)
  have r2: "replace_first ''today'' x ?tf = ?tf" for x
    by (rule replace_first_absent) (use t in simp_all)
  have sp: "split_on CHR '' '' ?tf = [a, b]"
    using split_on_two [OF av(1) b(1)] by simp
  show ?thesis
    unfolding convertTimeframe_def Let_def r1 r2 sp
    using isValidDate_not_fixed [OF a, of "'' '' @ b"] a by simp
qed


lemma unit_char_simps:
  "is_unit_char u \<Longrightarrow> \<not> is_digit u" "is_unit_char u \<Longrightarrow> u \<noteq> CHR '' ''"
  "is_unit_char u \<Longrightarrow> u \<noteq> CHR ''n''" "is_unit_char u \<Longrightarrow> u \<noteq> CHR ''t''" "is_unit_char u \<Longrightarrow> u \<noteq> CHR ''-''"
  by (auto simp: is_unit_char_def is_digit_def)

lemma is_digit_simps:
  "is_digit c \<Longrightarrow> c \<noteq> CHR '' ''" "is_digit c \<Longrightarrow> c \<noteq> CHR ''n''"
  "is_digit c \<Longrightarrow> c \<noteq> CHR ''t''" "is_digit c \<Longrightarrow> c \<noteq> CHR ''-''"
  by (auto simp: is_digit_def)

lemma isValidFormat_suffix:
  assumes "ds \<noteq> []" and "list_all is_digit ds" and "is_unit_char u"
  shows "isValidFormat (pre @ ds @ [u])" and "isValidFormat (pre @ ds @ ''-'' @ [u])"
proof -
  from assms(1) obtain ds' d where ds: "ds = ds' @ [d]" by (cases ds rule: rev_cases) auto
  with assms(2) have d: "is_digit d" by simp
  show "isValidFormat (pre @ ds @ [u])"
    using d assms(3) by (simp add: isValidFormat_def ds)
  show "isValidFormat (pre @ ds @ ''-'' @ [u])"
    using d assms(3) by (simp add: isValidFormat_def ds)
qed

lemma not_isValidDate_unit_end:
  assumes "is_unit_char u"
  shows "\<not> isValidDate (s @ [u])"
proof
  assume "isValidDate (s @ [u])"
  from isValidDate_last_digit [OF this] have "is_digit u" by simp
  with unit_char_simps(1) [OF assms] show False by simp
qed

lemma takeWhile_digits:
  assumes "list_all is_digit ds" and "\<not> is_digit c"
  shows "takeWhile is_digit (ds @ c # r) = ds" and "dropWhile is_digit (ds @ c # r) = c # r"
  using assms by (induction ds) simp_all

lemma match_offset_here_plain:
  assumes "ds \<noteq> []" and "list_all is_digit ds" and "is_unit_char u"
  shows "match_offset_here (ds @ [u]) = Some (parseInt ds, [u])"
  using assms takeWhile_digits [OF assms(2) unit_char_simps(1) [OF assms(3)], of "[]"]
    unit_char_simps(5) [OF assms(3)]
  by (simp add: match_offset_here_def)

lemma match_offset_here_hyphen:
  assumes "ds \<noteq> []" and "list_all is_digit ds" and "is_unit_char u"
  shows "match_offset_here (ds @ ''-'' @ [u]) = Some (parseInt ds, [u])"
proof -
  have nd: "\<not> is_digit CHR ''-''" by (simp add: is_digit_def)
  from takeWhile_digits [OF assms(2) nd, of "[u]"] assms(1,3) show ?thesis
    by (simp add: match_offset_here_def)
qed

lemma match_offset_here_nondigit: "\<not> is_digit c \<Longrightarrow> match_offset_here (c # cs) = None"
  by (simp add: match_offset_here_def)

lemma extractTimeParts_here:
  "s \<noteq> [] \<Longrightarrow> match_offset_here s = Some r \<Longrightarrow> extractTimeParts s = Some r"
  by (cases s) simp_all

lemma extractTimeParts_prefix:
  "list_all (\<lambda>c. \<not> is_digit c) pre \<Longrightarrow> extractTimeParts (pre @ s) = extractTimeParts s"
  by (induction pre) (simp_all add: match_offset_here_nondigit)

lemma extractTimeParts_offset:
  assumes "ds \<noteq> []" and "list_all is_digit ds" and "is_unit_char u"
    and "list_all (\<lambda>c. \<not> is_digit c) pre"
  shows "extractTimeParts (pre @ ds @ [u]) = Some (parseInt ds, [u])"
    and "extractTimeParts (pre @ ds @ ''-'' @ [u]) = Some (parseInt ds, [u])"
proof -
  have "extractTimeParts (ds @ [u]) = Some (parseInt ds, [u])"
    using match_offset_here_plain [OF assms(1-3)] assms(1)
    by (intro extractTimeParts_here) simp_all
  then show "extractTimeParts (pre @ ds @ [u]) = Some (parseInt ds, [u])"
    by (simp add: extractTimeParts_prefix [OF assms(4)])
  have "extractTimeParts (ds @ ''-'' @ [u]) = Some (parseInt ds, [u])"
    using match_offset_here_hyphen [OF assms(1-3)] assms(1)
    by (intro extractTimeParts_here) simp_all
  then show "extractTimeParts (pre @ ds @ ''-'' @ [u]) = Some (parseInt ds, [u])"
    by (simp add: extractTimeParts_prefix [OF assms(4)])
qed

lemma processDateWithOffset_cong:
  "extractTimeParts b = extractTimeParts b' \<Longrightarrow>
   processDateWithOffset a b = processDateWithOffset a b'"
  by (simp add: processDateWithOffset_def)

lemma dt_minus_returns: "\<exists>r. dt_minus dt (Some unit) n = Inr r"
  by (cases dt; cases unit) (simp_all add: dt_minus_def)

lemma UNIT_MAP_unit: "is_unit_char u \<Longrightarrow> \<exists>unit. UNIT_MAP [u] = Some unit"
  by (auto simp: is_unit_char_def UNIT_MAP_def)

lemma processDateWithOffset_outcome:
  assumes "extractTimeParts b = Some (n, [u])" and "is_unit_char u"
  shows "(\<exists>r. processDateWithOffset a b = Inr r) \<or> processDateWithOffset a b = Inl OffsetExceeds7Days"
proof -
  from UNIT_MAP_unit [OF assms(2)] obtain unit where u: "UNIT_MAP [u] = Some unit" ..
  from dt_minus_returns obtain r where
    r: "dt_minus (decodeTrendDatetime a) (Some unit) n = Inr r" by blast
  show ?thesis
    by (simp add: processDateWithOffset_def assms(1) u r Let_def)
qed


lemma list_all_avoids: "list_all P xs \<Longrightarrow> \<not> P c \<Longrightarrow> c \<notin> set xs"
  by (auto simp: list_all_iff)

lemma offset_text_avoids:
  assumes ds: "list_all is_digit ds" and u: "is_unit_char u" and pre: "list_all garbage_char pre"
    and hy: "hy = [] \<or> hy = ''-''"
  shows "CHR '' '' \<notin> set (pre @ ds @ hy @ [u])" "CHR ''n'' \<notin> set (pre @ ds @ hy @ [u])"
    "CHR ''t'' \<notin> set (pre @ ds @ hy @ [u])"
proof -
  have g: "\<not> garbage_char CHR '' ''" "\<not> garbage_char CHR ''n''" "\<not> garbage_char CHR ''t''"
    by (simp_all add: garbage_char_def)
  have d: "\<not> is_digit CHR '' ''" "\<not> is_digit CHR ''n''" "\<not> is_digit CHR ''t''"
    by (simp_all add: is_digit_def)
  from hy have h: "CHR '' '' \<notin> set hy" "CHR ''n'' \<notin> set hy" "CHR ''t'' \<notin> set hy"
    by (elim disjE; simp)+
  note uu = unit_char_simps(2-4) [OF u]
  show "CHR '' '' \<notin> set (pre @ ds @ hy @ [u])"
    using list_all_avoids [OF pre g(1)] list_all_avoids [OF ds d(1)] h(1) uu(1) by simp
  show "CHR ''n'' \<notin> set (pre @ ds @ hy @ [u])"
    using list_all_avoids [OF pre g(2)] list_all_avoids [OF ds d(2)] h(2) uu(2) by simp
  show "CHR ''t'' \<notin> set (pre @ ds @ hy @ [u])"
    using list_all_avoids [OF pre g(3)] list_all_avoids [OF ds d(3)] h(3) uu(3) by simp
qed

lemma convertTimeframe_offset:
  assumes a: "isValidDate a" and ds: "ds \<noteq> []" "list_all is_digit ds" and u: "is_unit_char u"
    and pre: "list_all garbage_char pre" and hy: "hy = [] \<or> hy = ''-''"
  shows "convertTimeframe clock (a @ '' '' @ pre @ ds @ hy @ [u]) flag =
           processDateWithOffset a (ds @ ''-'' @ [u])"
proof -
  let ?b = "pre @ ds @ hy @ [u]"
  note av = offset_text_avoids [OF ds(2) u pre hy]
  have nd: "\<not> isValidDate ?b"
    using not_isValidDate_unit_end [OF u, of "pre @ ds @ hy"] by simp
  from pre have pre': "list_all (\<lambda>c. \<not> is_digit c) pre"
    by (simp add: list_all_iff garbage_char_def)
  from hy have vf: "isValidFormat ?b"
  proof
    assume "hy = []"
    then show ?thesis using isValidFormat_suffix(1) [OF ds u, of pre] by simp
  next
    assume "hy = ''-''"
    then show ?thesis using isValidFormat_suffix(2) [OF ds u, of pre] by simp
  qed
  from hy have "extractTimeParts ?b = Some (parseInt ds, [u])"
  proof
    assume "hy = []"
    then show ?thesis using extractTimeParts_offset(1) [OF ds u pre'] by simp
  next
    assume "hy = ''-''"
    then show ?thesis using extractTimeParts_offset(2) [OF ds u pre'] by simp
  qed
  moreover have "extractTimeParts (ds @ ''-'' @ [u]) = Some (parseInt ds, [u])"
    using extractTimeParts_offset(2) [OF ds u, of "[]"] by simp
  ultimately have "extractTimeParts ?b = extractTimeParts (ds @ ''-'' @ [u])" by simp
  from processDateWithOffset_cong [OF this]
  have "processDateWithOffset a ?b = processDateWithOffset a (ds @ ''-'' @ [u])" .
  with convertTimeframe_parts [OF a av, of clock flag] nd vf show ?thesis by simp
qed


subsection \<open>The offset pattern\<close>

text \<open>
  Claim C10. The offset test looks only at the end of the second part: digits, an
  optional hyphen, a unit letter. For a date-like first part \<open>d\<close>, a non-empty run of
  digits \<open>ds\<close> and a unit letter \<open>u\<close>, the second part \<open>ds u\<close> (no hyphen) and the
  second part \<open>pre ds - u\<close> with a prefix \<open>pre\<close> of other characters both pass the test,
  and the conversion returns for them what it returns for the well-formed \<open>ds - u\<close>:
  the same range, or the same seven-day limit failure, never a format failure.
\<close>

theorem offset_classifier_lenient:
  assumes "isValidDate d" and "ds \<noteq> []" and "list_all is_digit ds" and "is_unit_char u"
    and "list_all garbage_char pre"
  shows "isValidFormat (ds @ [u]) \<and> isValidFormat (pre @ ds @ ''-'' @ [u])
       \<and> convertTimeframe clock (d @ '' '' @ ds @ [u]) flag =
           convertTimeframe clock (d @ '' '' @ ds @ ''-'' @ [u]) flag
       \<and> convertTimeframe clock (d @ '' '' @ pre @ ds @ ''-'' @ [u]) flag =
           convertTimeframe clock (d @ '' '' @ ds @ ''-'' @ [u]) flag
       \<and> ((\<exists>r. convertTimeframe clock (d @ '' '' @ ds @ ''-'' @ [u]) flag = Inr r) \<or>
          convertTimeframe clock (d @ '' '' @ ds @ ''-'' @ [u]) flag = Inl OffsetExceeds7Days)"
proof -
  note c = convertTimeframe_offset [OF assms(1-4), of _ _ clock flag]
  have g0: "list_all garbage_char []" by simp
  have h1: "([]::string) = [] \<or> ([]::string) = ''-''" by simp
  have h2: "''-'' = [] \<or> ''-'' = ''-''" by simp
  have plain: "convertTimeframe clock (d @ '' '' @ ds @ [u]) flag =
      processDateWithOffset d (ds @ ''-'' @ [u])"
    using c [OF g0 h1] by simp
  have hyph: "convertTimeframe clock (d @ '' '' @ ds @ ''-'' @ [u]) flag =
      processDateWithOffset d (ds @ ''-'' @ [u])"
    using c [OF g0 h2] by simp
  have garb: "convertTimeframe clock (d @ '' '' @ pre @ ds @ ''-'' @ [u]) flag =
      processDateWithOffset d (ds @ ''-'' @ [u])"
    using c [OF assms(5) h2] by simp
  have ex: "extractTimeParts (ds @ ''-'' @ [u]) = Some (parseInt ds, [u])"
    using extractTimeParts_offset(2) [OF assms(2-4), of "[]"] by simp
  note out = processDateWithOffset_outcome [OF ex assms(4), of d]
  have v1: "isValidFormat (ds @ [u])"
    using isValidFormat_suffix(1) [OF assms(2-4), of "[]"] by simp
  have v2: "isValidFormat (pre @ ds @ ''-'' @ [u])"
    by (rule isValidFormat_suffix(2) [OF assms(2-4)])
  show ?thesis
    unfolding plain hyph garb using v1 v2 out by (intro conjI) simp_all
qed


theorem offset_classifier_lenient_witness:
  "isValidDate ''2024-09-12'' \<and> isValidFormat ''5H'' \<and> isValidFormat ''xx5-H''
   \<and> convertTimeframe 1730000000000 ''2024-09-12 5H'' False = Inr ''2024-09-11 2024-09-12''
   \<and> convertTimeframe 1730000000000 ''2024-09-12 xx5-H'' False = Inr ''2024-09-11 2024-09-12''"
proof -
  have v: "isValidDate ''2024-09-12''" by code_simp
  have d: "''5'' \<noteq> []" "list_all is_digit ''5''" by (simp_all add: is_digit_def)
  have u: "is_unit_char CHR ''H''" by (simp add: is_unit_char_def)
  have g: "list_all garbage_char ''xx''" by (simp add: garbage_char_def is_digit_def)
  have g0: "list_all garbage_char []" by simp
  have h: "''-'' = [] \<or> ''-'' = ''-''" by simp
  have p: "processDateWithOffset ''2024-09-12'' ''5-H'' = Inr ''2024-09-11 2024-09-12''"
    by code_simp
  have w: "convertTimeframe 1730000000000 ''2024-09-12 5-H'' False =
      Inr ''2024-09-11 2024-09-12''"
    using convertTimeframe_offset [OF v d u g0 h, of 1730000000000 False] p by simp
  from offset_classifier_lenient [OF v d u g, of 1730000000000 False] w v
  show ?thesis by simp
qed

subsection \<open>Month and year offsets\<close>










subsection \<open>Two dates\<close>

lemma from_hours_hour: "from_hours t = DateTime y m d h \<Longrightarrow> h = t mod 24"
  by (simp add: from_hours_def split: prod.splits)

lemma to_hours_midnight: "to_hours y m d 0 mod 24 = 0"
  by (simp add: to_hours_def Let_def)

lemma parseInt_zero: "parseInt ''0'' = 0"
  by (simp add: parseInt_def digit_val_def)

lemma make_datetime_midnight:
  "make_datetime ys ms ds ''0'' = DateTime y m d h \<Longrightarrow> h = 0"
  using to_hours_midnight
  by (auto simp: make_datetime_def Let_def parseInt_zero split: if_splits dest!: from_hours_hour)

lemma decode_hourless_midnight:
  assumes "CHR ''T'' \<notin> set p" and "decodeTrendDatetime p = DateTime y m d h"
  shows "h = 0"
  using assms
  by (auto simp: decodeTrendDatetime_def fromFormat_def
      split: option.splits prod.splits if_splits dest: make_datetime_midnight)

lemma startOfDay_hourless:
  assumes "CHR ''T'' \<notin> set p"
  shows "startOfDay (decodeTrendDatetime p) = decodeTrendDatetime p"
proof (cases "decodeTrendDatetime p")
  case InvalidDateTime
  then show ?thesis by (simp add: startOfDay_def)
next
  case (DateTime y m d h)
  with decode_hourless_midnight [OF assms this] show ?thesis by (simp add: startOfDay_def)
qed

lemma exceeds_seven_days:
  "js_gt (js_abs (as_days (Millis x))) (Some 7) \<longleftrightarrow> \<bar>x\<bar> > 604800000"
proof -
  have "\<bar>rat_of_int x / 86400000\<bar> = rat_of_int \<bar>x\<bar> / 86400000" by simp
  moreover have "(7 < rat_of_int \<bar>x\<bar> / 86400000) = (rat_of_int 604800000 < rat_of_int \<bar>x\<bar>)"
    by (simp add: less_divide_eq)
  moreover have "(rat_of_int 604800000 < rat_of_int \<bar>x\<bar>) = (604800000 < \<bar>x\<bar>)"
    by (rule of_int_less_iff)
  ultimately show ?thesis by (simp add: js_gt_def js_abs_def as_days_def)
qed


lemma processTwoDates_plain:
  "CHR ''T'' \<notin> set p1 \<Longrightarrow> CHR ''T'' \<notin> set p2 \<Longrightarrow>
     processTwoDates p1 p2 = Inr (p1 @ '' '' @ p2)"
  by (simp add: processTwoDates_def)

lemma processTwoDates_hours:
  assumes T: "CHR ''T'' \<in> set p1 \<or> CHR ''T'' \<in> set p2"
    and t1: "toMillis (decodeTrendDatetime p1) = Some t1"
    and t2: "toMillis (decodeTrendDatetime p2) = Some t2"
  shows "processTwoDates p1 p2 =
     (if \<bar>t2 - t1\<bar> > 604800000 then Inl DateDifferenceExceeds7Days
      else Inr (toFormat (decodeTrendDatetime p1) DATE_T_FORMAT @ '' '' @
                toFormat (decodeTrendDatetime p2) DATE_T_FORMAT))"
proof -
  have d: "dt_diff (decodeTrendDatetime p2) (decodeTrendDatetime p1) = Millis (t2 - t1)"
    by (simp add: dt_diff_def t1 t2)
  consider (both) "CHR ''T'' \<in> set p1" "CHR ''T'' \<in> set p2"
    | (first) "CHR ''T'' \<in> set p1" "CHR ''T'' \<notin> set p2"
    | (second) "CHR ''T'' \<notin> set p1" "CHR ''T'' \<in> set p2"
    using T by blast
  then show ?thesis
  proof cases
    case both
    then show ?thesis
      by (simp add: processTwoDates_def Let_def d exceeds_seven_days)
  next
    case first
    then show ?thesis
      by (simp add: processTwoDates_def Let_def startOfDay_hourless d exceeds_seven_days)
  next
    case second
    then show ?thesis
      by (simp add: processTwoDates_def Let_def startOfDay_hourless d exceeds_seven_days)
  qed
qed

lemma convertTimeframe_two_dates:
  assumes "isValidDate p1" and "isValidDate p2"
  shows "convertTimeframe clock (p1 @ '' '' @ p2) flag = processTwoDates p1 p2"
  using convertTimeframe_parts [OF assms(1) isValidDate_avoids [OF assms(2)], of clock flag]
    assms(2) by simp

lemma convertTimeframe_two_dates_example:
  "convertTimeframe clock ''2024-09-12T23 2024-09-13'' flag = Inr ''2024-09-12T23 2024-09-13T00''"
proof -
  have v: "isValidDate ''2024-09-12T23''" "isValidDate ''2024-09-13''" by code_simp+
  have p: "processTwoDates ''2024-09-12T23'' ''2024-09-13'' = Inr ''2024-09-12T23 2024-09-13T00''"
    by code_simp
  from convertTimeframe_two_dates [OF v, of clock flag] p show ?thesis by simp
qed

text \<open>
  Claim C7. For two date-like parts: when neither has an hour, the conversion returns
  the two parts joined by one space, unchanged. When at least one has an hour and both
  denote calendar dates, the conversion fails with the seven-day error exactly when the
  two instants are more than seven days apart (in either order), and otherwise returns
  both instants written with their hour. A part without an hour denotes midnight of its
  date. In particular \<open>2024-09-12T23 2024-09-13\<close> gives \<open>2024-09-12T23 2024-09-13T00\<close>.
\<close>

theorem two_dates_rule:
  assumes "isValidDate p1" and "isValidDate p2"
  shows "(CHR ''T'' \<notin> set p1 \<and> CHR ''T'' \<notin> set p2 \<longrightarrow>
           convertTimeframe clock (p1 @ '' '' @ p2) flag = Inr (p1 @ '' '' @ p2))
       \<and> (\<forall>t1 t2. (CHR ''T'' \<in> set p1 \<or> CHR ''T'' \<in> set p2) \<and>
            toMillis (decodeTrendDatetime p1) = Some t1 \<and>
            toMillis (decodeTrendDatetime p2) = Some t2 \<longrightarrow>
            convertTimeframe clock (p1 @ '' '' @ p2) flag =
              (if \<bar>t2 - t1\<bar> > 7 * 24 * 3600000 then Inl DateDifferenceExceeds7Days
               else Inr (toFormat (decodeTrendDatetime p1) DATE_T_FORMAT @ '' '' @
                         toFormat (decodeTrendDatetime p2) DATE_T_FORMAT)))
       \<and> (\<forall>y m d h. CHR ''T'' \<notin> set p1 \<and> decodeTrendDatetime p1 = DateTime y m d h \<longrightarrow> h = 0)
       \<and> (\<forall>y m d h. CHR ''T'' \<notin> set p2 \<and> decodeTrendDatetime p2 = DateTime y m d h \<longrightarrow> h = 0)
       \<and> convertTimeframe clock ''2024-09-12T23 2024-09-13'' flag =
           Inr ''2024-09-12T23 2024-09-13T00''"
proof (intro conjI allI impI)
  assume "CHR ''T'' \<notin> set p1 \<and> CHR ''T'' \<notin> set p2"
  then show "convertTimeframe clock (p1 @ '' '' @ p2) flag = Inr (p1 @ '' '' @ p2)"
    unfolding convertTimeframe_two_dates [OF assms] by (simp add: processTwoDates_plain)
next
  fix t1 t2
  assume h: "(CHR ''T'' \<in> set p1 \<or> CHR ''T'' \<in> set p2) \<and>
            toMillis (decodeTrendDatetime p1) = Some t1 \<and>
            toMillis (decodeTrendDatetime p2) = Some t2"
  then have T: "CHR ''T'' \<in> set p1 \<or> CHR ''T'' \<in> set p2"
    and t1: "toMillis (decodeTrendDatetime p1) = Some t1"
    and t2: "toMillis (decodeTrendDatetime p2) = Some t2" by simp_all
  show "convertTimeframe clock (p1 @ '' '' @ p2) flag =
              (if \<bar>t2 - t1\<bar> > 7 * 24 * 3600000 then Inl DateDifferenceExceeds7Days
               else Inr (toFormat (decodeTrendDatetime p1) DATE_T_FORMAT @ '' '' @
                         toFormat (decodeTrendDatetime p2) DATE_T_FORMAT))"
    unfolding convertTimeframe_two_dates [OF assms] processTwoDates_hours [OF T t1 t2]
    by simp
next
  fix y m d h
  assume "CHR ''T'' \<notin> set p1 \<and> decodeTrendDatetime p1 = DateTime y m d h"
  then show "h = 0" using decode_hourless_midnight [of p1 y m d h] by simp
next
  fix y m d h
  assume "CHR ''T'' \<notin> set p2 \<and> decodeTrendDatetime p2 = DateTime y m d h"
  then show "h = 0" using decode_hourless_midnight [of p2 y m d h] by simp
next
  show "convertTimeframe clock ''2024-09-12T23 2024-09-13'' flag =
           Inr ''2024-09-12T23 2024-09-13T00''"
    by (rule convertTimeframe_two_dates_example)
qed

theorem two_dates_rule_witness:
  "isValidDate ''2024-09-01T00'' \<and> isValidDate ''2024-09-13''
   \<and> toMillis (decodeTrendDatetime ''2024-09-01T00'') = Some 1725148800000
   \<and> toMillis (decodeTrendDatetime ''2024-09-13'') = Some 1726185600000
   \<and> convertTimeframe 1730000000000 ''2024-09-01T00 2024-09-13'' False
       = Inl DateDifferenceExceeds7Days
   \<and> convertTimeframe 1730000000000 ''2024-09-12 2024-09-13'' False = Inr ''2024-09-12 2024-09-13''"
proof -
  have v: "isValidDate ''2024-09-01T00''" "isValidDate ''2024-09-13''" by code_simp+
  have v': "isValidDate ''2024-09-12''" by code_simp
  have t1: "toMillis (decodeTrendDatetime ''2024-09-01T00'') = Some 1725148800000" by code_simp
  have t2: "toMillis (decodeTrendDatetime ''2024-09-13'') = Some 1726185600000" by code_simp
  have h: "(CHR ''T'' \<in> set ''2024-09-01T00'' \<or> CHR ''T'' \<in> set ''2024-09-13'') \<and>
      toMillis (decodeTrendDatetime ''2024-09-01T00'') = Some 1725148800000 \<and>
      toMillis (decodeTrendDatetime ''2024-09-13'') = Some 1726185600000"
    using t1 t2 by simp
  from two_dates_rule [OF v, of 1730000000000 False, THEN conjunct2, THEN conjunct1,
      THEN spec, THEN spec, THEN mp, OF h]
  have a: "convertTimeframe 1730000000000 ''2024-09-01T00 2024-09-13'' False
       = Inl DateDifferenceExceeds7Days" by simp
  have n: "CHR ''T'' \<notin> set ''2024-09-12'' \<and> CHR ''T'' \<notin> set ''2024-09-13''" by simp
  from two_dates_rule [OF v' v(2), of 1730000000000 False, THEN conjunct1, THEN mp, OF n]
  have b: "convertTimeframe 1730000000000 ''2024-09-12 2024-09-13'' False =
      Inr ''2024-09-12 2024-09-13''" by simp
  from v t1 t2 a b show ?thesis by (intro conjI)
qed


subsection \<open>The compatibility check\<close>

lemma timeframeToDuration_two_dates:
  assumes "isValidDate p1" and "isValidDate p2"
    and "processTwoDates p1 p2 = Inr (x @ '' '' @ y)"
    and "CHR '' '' \<notin> set x" and "CHR '' '' \<notin> set y"
  shows "timeframeToDuration clock (p1 @ '' '' @ p2) =
           Inr (dt_diff (decodeTrendDatetime y) (decodeTrendDatetime x))"
proof -
  have sp: "split_on CHR '' '' (x @ '' '' @ y) = [x, y]"
    using split_on_two [OF assms(4,5)] by simp
  show ?thesis
    unfolding timeframeToDuration_def convertTimeframe_two_dates [OF assms(1,2)] assms(3)
      sum.case sp
    by simp
qed

lemma getResolutionAndRange_of_duration:
  "timeframeToDuration clock tf = Inr (Millis ms) \<Longrightarrow>
   getResolutionAndRange clock tf = Inr (resolution_of_hours (Some (of_int ms / 3600000)))"
  by (simp add: getResolutionAndRange_def as_hours_def)

lemma hour_range_1: "timeframeToDuration clock ''2024-09-12T00 2024-09-12T01'' = Inr (Millis 3600000)"
proof -
  have v: "isValidDate ''2024-09-12T00''" "isValidDate ''2024-09-12T01''" by code_simp+
  have p: "processTwoDates ''2024-09-12T00'' ''2024-09-12T01'' =
      Inr (''2024-09-12T00'' @ '' '' @ ''2024-09-12T01'')" by code_simp
  have d: "dt_diff (decodeTrendDatetime ''2024-09-12T01'') (decodeTrendDatetime ''2024-09-12T00'')
      = Millis 3600000" by code_simp
  from timeframeToDuration_two_dates [OF v p, of clock] d show ?thesis by simp
qed

lemma hour_range_3: "timeframeToDuration clock ''2024-09-12T00 2024-09-12T03'' = Inr (Millis 10800000)"
proof -
  have v: "isValidDate ''2024-09-12T00''" "isValidDate ''2024-09-12T03''" by code_simp+
  have p: "processTwoDates ''2024-09-12T00'' ''2024-09-12T03'' =
      Inr (''2024-09-12T00'' @ '' '' @ ''2024-09-12T03'')" by code_simp
  have d: "dt_diff (decodeTrendDatetime ''2024-09-12T03'') (decodeTrendDatetime ''2024-09-12T00'')
      = Millis 10800000" by code_simp
  from timeframeToDuration_two_dates [OF v p, of clock] d show ?thesis by simp
qed

lemma hour_range_24: "timeframeToDuration clock ''2024-09-12T00 2024-09-13T00'' = Inr (Millis 86400000)"
proof -
  have v: "isValidDate ''2024-09-12T00''" "isValidDate ''2024-09-13T00''" by code_simp+
  have p: "processTwoDates ''2024-09-12T00'' ''2024-09-13T00'' =
      Inr (''2024-09-12T00'' @ '' '' @ ''2024-09-13T00'')" by code_simp
  have d: "dt_diff (decodeTrendDatetime ''2024-09-13T00'') (decodeTrendDatetime ''2024-09-12T00'')
      = Millis 86400000" by code_simp
  from timeframeToDuration_two_dates [OF v p, of clock] d show ?thesis by simp
qed

lemma checkTimeframeResolution_conversion_error:
  "map_throwing (getResolutionAndRange clock) (ensureList arg) = Inl e \<Longrightarrow>
   checkTimeframeResolution clock arg = Inl e"
  by (simp add: checkTimeframeResolution_def)


text \<open>
  Claim C9. A failure to convert one of the timeframes is the failure of the check. For
  a non-empty sequence whose timeframes all convert to durations that are numbers: if two
  elements fall into different resolution buckets, the check fails with the
  different-resolutions error, which lists every element with its timeframe, duration and
  bucket; if all buckets agree, the check fails with the ratio error, naming a timeframe
  of maximal and one of minimal duration, exactly when the maximal duration is at least
  twice the minimal one, and it succeeds otherwise.
\<close>

theorem checkTimeframeResolution_verdict:
  "(\<forall>e. map_throwing (getResolutionAndRange clock) (ensureList arg) = Inl e \<longrightarrow>
        checkTimeframeResolution clock arg = Inl e)
   \<and> (\<forall>rs xs.
        map_throwing (getResolutionAndRange clock) (ensureList arg) = Inr rs \<and>
        map_throwing (timeframeToDuration clock) (ensureList arg) = Inr (map Millis xs) \<and>
        ensureList arg \<noteq> [] \<longrightarrow>
        ((\<exists>a\<in>set rs. \<exists>b\<in>set rs. fst a \<noteq> fst b) \<longrightarrow>
           checkTimeframeResolution clock arg =
             Inl (DifferentResolutions
               (map (\<lambda>(timeframe, d, r). (timeframe, millis_of d, fst r, snd r))
                  (zip (ensureList arg) (zip (map Millis xs) rs)))))
        \<and> (\<not> (\<exists>a\<in>set rs. \<exists>b\<in>set rs. fst a \<noteq> fst b) \<longrightarrow>
           (\<exists>tmin tmax.
              (Min (set xs), tmin) \<in> set (zip xs (ensureList arg)) \<and>
              (Max (set xs), tmax) \<in> set (zip xs (ensureList arg)) \<and>
              checkTimeframeResolution clock arg =
                (if 2 * Min (set xs) \<le> Max (set xs)
                 then Inl (ResolutionRatioTooLarge (Some (Max (set xs))) tmax
                        (Some (Min (set xs))) tmin)
                 else Inr ()))))"
proof (intro conjI allI impI)
  fix e
  assume "map_throwing (getResolutionAndRange clock) (ensureList arg) = Inl e"
  then show "checkTimeframeResolution clock arg = Inl e"
    by (rule checkTimeframeResolution_conversion_error)
next
  fix rs xs
  assume h: "map_throwing (getResolutionAndRange clock) (ensureList arg) = Inr rs \<and>
        map_throwing (timeframeToDuration clock) (ensureList arg) = Inr (map Millis xs) \<and>
        ensureList arg \<noteq> []"
  assume "\<exists>a\<in>set rs. \<exists>b\<in>set rs. fst a \<noteq> fst b"
  with h show "checkTimeframeResolution clock arg =
             Inl (DifferentResolutions
               (map (\<lambda>(timeframe, d, r). (timeframe, millis_of d, fst r, snd r))
                  (zip (ensureList arg) (zip (map Millis xs) rs))))"
    using checkTimeframeResolution_different [of clock arg rs "map Millis xs"] by (elim conjE)
next
  fix rs xs
  assume h: "map_throwing (getResolutionAndRange clock) (ensureList arg) = Inr rs \<and>
        map_throwing (timeframeToDuration clock) (ensureList arg) = Inr (map Millis xs) \<and>
        ensureList arg \<noteq> []"
  assume "\<not> (\<exists>a\<in>set rs. \<exists>b\<in>set rs. fst a \<noteq> fst b)"
  with h show "\<exists>tmin tmax.
              (Min (set xs), tmin) \<in> set (zip xs (ensureList arg)) \<and>
              (Max (set xs), tmax) \<in> set (zip xs (ensureList arg)) \<and>
              checkTimeframeResolution clock arg =
                (if 2 * Min (set xs) \<le> Max (set xs)
                 then Inl (ResolutionRatioTooLarge (Some (Max (set xs))) tmax
                        (Some (Min (set xs))) tmin)
                 else Inr ())"
    using checkTimeframeResolution_same [of clock arg rs xs] by (elim conjE)
qed


theorem checkTimeframeResolution_verdict_witness:
  "checkTimeframeResolution 1730000000000
     (Array [''2024-09-12T00 2024-09-12T01'', ''2024-09-12T00 2024-09-12T03''])
     = Inl (ResolutionRatioTooLarge (Some 10800000) ''2024-09-12T00 2024-09-12T03''
              (Some 3600000) ''2024-09-12T00 2024-09-12T01'')
   \<and> checkTimeframeResolution 1730000000000
     (Array [''2024-09-12T00 2024-09-12T01'', ''2024-09-12T00 2024-09-13T00''])
     = Inl (DifferentResolutions
         [(''2024-09-12T00 2024-09-12T01'', Some 3600000, ''1 minute'', ''delta < 5 hours''),
          (''2024-09-12T00 2024-09-13T00'', Some 86400000, ''8 minutes'',
           ''5 hours <= delta < 36 hours'')])"
proof -
  let ?c = "1730000000000 :: int"
  let ?e1 = "''2024-09-12T00 2024-09-12T01''" and ?e3 = "''2024-09-12T00 2024-09-12T03''"
    and ?e24 = "''2024-09-12T00 2024-09-13T00''"
  note d1 = hour_range_1 [of ?c] and d3 = hour_range_3 [of ?c] and d24 = hour_range_24 [of ?c]
  have r1: "getResolutionAndRange ?c ?e1 = Inr (''1 minute'', ''delta < 5 hours'')"
    unfolding getResolutionAndRange_of_duration [OF d1] resolution_of_hours_valid by simp
  have r3: "getResolutionAndRange ?c ?e3 = Inr (''1 minute'', ''delta < 5 hours'')"
    unfolding getResolutionAndRange_of_duration [OF d3] resolution_of_hours_valid by simp
  have r24: "getResolutionAndRange ?c ?e24 = Inr (''8 minutes'', ''5 hours <= delta < 36 hours'')"
    unfolding getResolutionAndRange_of_duration [OF d24] resolution_of_hours_valid by simp
  have RA: "map_throwing (getResolutionAndRange ?c) (ensureList (Array [?e1, ?e3])) =
      Inr [(''1 minute'', ''delta < 5 hours''), (''1 minute'', ''delta < 5 hours'')]"
    by (simp add: r1 r3)
  have DA: "map_throwing (timeframeToDuration ?c) (ensureList (Array [?e1, ?e3])) =
      Inr (map Millis [3600000, 10800000])"
    by (simp add: d1 d3)
  have RB: "map_throwing (getResolutionAndRange ?c) (ensureList (Array [?e1, ?e24])) =
      Inr [(''1 minute'', ''delta < 5 hours''), (''8 minutes'', ''5 hours <= delta < 36 hours'')]"
    by (simp add: r1 r24)
  have DB: "map_throwing (timeframeToDuration ?c) (ensureList (Array [?e1, ?e24])) =
      Inr (map Millis [3600000, 86400000])"
    by (simp add: d1 d24)
  have neA: "ensureList (Array [?e1, ?e3]) \<noteq> []" and neB: "ensureList (Array [?e1, ?e24]) \<noteq> []"
    by simp_all
  have sameA: "\<not> (\<exists>a\<in>set [(''1 minute'', ''delta < 5 hours''), (''1 minute'', ''delta < 5 hours'')].
      \<exists>b\<in>set [(''1 minute'', ''delta < 5 hours''), (''1 minute'', ''delta < 5 hours'')].
        fst a \<noteq> fst b)" by simp
  have diffB: "\<exists>a\<in>set [(''1 minute'', ''delta < 5 hours''),
        (''8 minutes'', ''5 hours <= delta < 36 hours'')].
      \<exists>b\<in>set [(''1 minute'', ''delta < 5 hours''),
        (''8 minutes'', ''5 hours <= delta < 36 hours'')]. fst a \<noteq> fst b"
    by (rule bexI [of _ "(''1 minute'', ''delta < 5 hours'')"],
        rule bexI [of _ "(''8 minutes'', ''5 hours <= delta < 36 hours'')"]) simp_all
  have mn: "Min (set [3600000, 10800000 :: int]) = 3600000"
    and mx: "Max (set [3600000, 10800000 :: int]) = 10800000" by simp_all
  from checkTimeframeResolution_verdict [of ?c "Array [?e1, ?e3]", THEN conjunct2, THEN spec,
      THEN spec, THEN mp, OF conjI [OF RA conjI [OF DA neA]], THEN conjunct2, THEN mp, OF sameA]
  obtain tmin tmax where
    a1: "(Min (set [3600000, 10800000 :: int]), tmin) \<in>
           set (zip [3600000, 10800000] (ensureList (Array [?e1, ?e3])))" and
    a2: "(Max (set [3600000, 10800000 :: int]), tmax) \<in>
           set (zip [3600000, 10800000] (ensureList (Array [?e1, ?e3])))" and
    a3: "checkTimeframeResolution ?c (Array [?e1, ?e3]) =
           (if 2 * Min (set [3600000, 10800000 :: int]) \<le> Max (set [3600000, 10800000])
            then Inl (ResolutionRatioTooLarge (Some (Max (set [3600000, 10800000]))) tmax
                   (Some (Min (set [3600000, 10800000]))) tmin)
            else Inr ())"
    by (elim exE conjE) (rule that)
  from a1 have tmin: "tmin = ?e1" unfolding mn by simp
  from a2 have tmax: "tmax = ?e3" unfolding mx by simp
  from a3 have A: "checkTimeframeResolution ?c (Array [?e1, ?e3]) =
      Inl (ResolutionRatioTooLarge (Some 10800000) ?e3 (Some 3600000) ?e1)"
    unfolding mn mx tmin tmax by simp
  from checkTimeframeResolution_verdict [of ?c "Array [?e1, ?e24]", THEN conjunct2, THEN spec,
      THEN spec, THEN mp, OF conjI [OF RB conjI [OF DB neB]], THEN conjunct1, THEN mp, OF diffB]
  have B: "checkTimeframeResolution ?c (Array [?e1, ?e24]) =
      Inl (DifferentResolutions
         [(?e1, Some 3600000, ''1 minute'', ''delta < 5 hours''),
          (?e24, Some 86400000, ''8 minutes'', ''5 hours <= delta < 36 hours'')])"
    by (simp add: millis_of_def)
  from A B show ?thesis by (intro conjI)
qed


section \<open>Properties of the transport\<close>

subsection \<open>Retries and backoff\<close>

lemma log_event_frame:
  "maxRetries (log_event e t) = maxRetries t" "requestDelay (log_event e t) = requestDelay t"
  "responseCodes (log_event e t) = responseCodes t" "trace (log_event e t) = trace t @ [e]"
  "lastRequestTimes (log_event e t) = lastRequestTimes t" "now (log_event e t) = now t"
  by (simp_all add: log_event_def)

lemma sleep_frame:
  "maxRetries (sleep ms t) = maxRetries t" "requestDelay (sleep ms t) = requestDelay t"
  "responseCodes (sleep ms t) = responseCodes t" "trace (sleep ms t) = trace t"
  "lastRequestTimes (sleep ms t) = lastRequestTimes t" "now (sleep ms t) = now t + ms"
  by (simp_all add: sleep_def)

lemma backoff_sleeps_snoc:
  "backoff_sleeps (tr @ [BackoffSleep ms]) = backoff_sleeps tr @ [ms]"
  "backoff_sleeps (tr @ [ThrottleSleep ms]) = backoff_sleeps tr"
  "backoff_sleeps (tr @ [Dispatch ms]) = backoff_sleeps tr"
  "backoff_sleeps (tr @ [InitSession]) = backoff_sleeps tr"
  "backoff_sleeps (tr @ [Advisory d]) = backoff_sleeps tr"
  by (simp_all add: backoff_sleeps_def)

lemma advisories_snoc:
  "advisories (tr @ [BackoffSleep ms]) = advisories tr"
  "advisories (tr @ [ThrottleSleep ms]) = advisories tr"
  "advisories (tr @ [Dispatch ms]) = advisories tr"
  "advisories (tr @ [InitSession]) = advisories tr"
  "advisories (tr @ [Advisory d]) = advisories tr @ [d]"
  by (simp_all add: advisories_def)

lemma throttle_trace:
  "\<exists>es. trace (throttle t) = trace t @ es \<and> backoff_sleeps (trace t @ es) = backoff_sleeps (trace t)
     \<and> advisories (trace t @ es) = advisories (trace t)"
proof (cases "requestDelay t = 0")
  case True
  then have "trace (throttle t) = trace t @ []" by (simp add: throttle_def)
  then show ?thesis by (intro exI [of _ "[]"]) simp
next
  case False
  let ?s = "max 0 (int (requestDelay t) * 1000 - (now t - math_min (lastRequestTimes t)))"
  show ?thesis
  proof (cases "?s > 0")
    case True
    with False have "\<exists>d. trace (throttle t) = trace t @ [ThrottleSleep ?s, Dispatch d]"
      by (simp add: throttle_def Let_def log_event_frame sleep_frame)
    then obtain d where "trace (throttle t) = trace t @ [ThrottleSleep ?s, Dispatch d]" ..
    moreover have "backoff_sleeps (trace t @ [ThrottleSleep ?s, Dispatch d]) = backoff_sleeps (trace t)"
      using backoff_sleeps_snoc(2,3) [of "trace t @ [ThrottleSleep ?s]"] backoff_sleeps_snoc(2) [of "trace t"]
      by simp
    moreover have "advisories (trace t @ [ThrottleSleep ?s, Dispatch d]) = advisories (trace t)"
      using advisories_snoc(2,3) [of "trace t @ [ThrottleSleep ?s]"] advisories_snoc(2) [of "trace t"]
      by simp
    ultimately show ?thesis by blast
  next
    case f: False
    with False have "\<exists>d. trace (throttle t) = trace t @ [Dispatch d]"
      by (simp add: throttle_def Let_def log_event_frame sleep_frame)
    then obtain d where "trace (throttle t) = trace t @ [Dispatch d]" ..
    then show ?thesis using backoff_sleeps_snoc(3) advisories_snoc(3) by blast
  qed
qed

lemma throttle_frame:
  "maxRetries (throttle t) = maxRetries t" "requestDelay (throttle t) = requestDelay t"
  "responseCodes (throttle t) = responseCodes t"
  "backoff_sleeps (trace (throttle t)) = backoff_sleeps (trace t)"
  "advisories (trace (throttle t)) = advisories (trace t)"
proof -
  show "maxRetries (throttle t) = maxRetries t" "requestDelay (throttle t) = requestDelay t"
    "responseCodes (throttle t) = responseCodes t"
    by (simp_all add: throttle_def Let_def log_event_frame sleep_frame)
  from throttle_trace [of t] show "backoff_sleeps (trace (throttle t)) = backoff_sleeps (trace t)"
    "advisories (trace (throttle t)) = advisories (trace t)" by auto
qed

lemma initSession_frame:
  "maxRetries (initSession d t) = maxRetries t" "requestDelay (initSession d t) = requestDelay t"
  "responseCodes (initSession d t) = responseCodes t"
  "backoff_sleeps (trace (initSession d t)) = backoff_sleeps (trace t)"
  "advisories (trace (initSession d t)) = advisories (trace t)"
  by (simp_all add: initSession_def log_event_frame sleep_frame backoff_sleeps_snoc advisories_snoc)

lemma get_loop_step:
  assumes "\<not> returns_200 (env (maxRetries t - Suc r))"
  shows "get_loop env (Suc r) t =
           get_loop env r (after_attempt (env (maxRetries t - Suc r)) (maxRetries t - Suc r) t)"
  using assms
  by (cases "outcome (env (maxRetries t - Suc r))")
     (simp_all add: after_attempt_def Let_def returns_200_def)

lemma after_attempt_frame:
  "maxRetries (after_attempt a k t) = maxRetries t"
  "requestDelay (after_attempt a k t) = requestDelay t"
  "responseCodes (after_attempt a k t) = responseCodes t @ observed_status a"
  "backoff_sleeps (trace (after_attempt a k t)) =
     backoff_sleeps (trace t) @ (if rate_limited a then [5 * 2 ^ k * 1000] else [])"
  "advisories (trace (after_attempt a k t)) = advisories (trace t)"
proof -
  note fr = throttle_frame sleep_frame initSession_frame log_event_frame
    backoff_sleeps_snoc advisories_snoc
  show "maxRetries (after_attempt a k t) = maxRetries t"
    by (cases "outcome a") (simp_all add: after_attempt_def Let_def fr)
  show "requestDelay (after_attempt a k t) = requestDelay t"
    by (cases "outcome a") (simp_all add: after_attempt_def Let_def fr)
  show "responseCodes (after_attempt a k t) = responseCodes t @ observed_status a"
    by (cases "outcome a") (simp_all add: after_attempt_def Let_def fr observed_status_def)
  show "backoff_sleeps (trace (after_attempt a k t)) =
     backoff_sleeps (trace t) @ (if rate_limited a then [5 * 2 ^ k * 1000] else [])"
    by (cases "outcome a") (simp_all add: after_attempt_def Let_def fr rate_limited_def)
  show "advisories (trace (after_attempt a k t)) = advisories (trace t)"
    by (cases "outcome a") (simp_all add: after_attempt_def Let_def fr)
qed










subsection \<open>The throttle\<close>

lemma dispatch_times_snoc:
  "dispatch_times (tr @ [BackoffSleep ms]) = dispatch_times tr"
  "dispatch_times (tr @ [ThrottleSleep ms]) = dispatch_times tr"
  "dispatch_times (tr @ [Dispatch ms]) = dispatch_times tr @ [ms]"
  "dispatch_times (tr @ [InitSession]) = dispatch_times tr"
  "dispatch_times (tr @ [Advisory d]) = dispatch_times tr"
  by (simp_all add: dispatch_times_def)

lemma js_set_props: "set (js_set xs) = set xs" "js_set xs = [] \<longleftrightarrow> xs = []"
  by (simp_all add: js_set_def)

lemma throttle_fields:
  assumes "0 < requestDelay t"
  shows "now (throttle t) =
           max (now t) (math_min (lastRequestTimes t) + int (requestDelay t) * 1000)"
    and "lastRequestTimes (throttle t) =
           js_set (filter (\<lambda>x. x \<noteq> math_min (lastRequestTimes t)) (lastRequestTimes t) @
             [now (throttle t)])"
    and "dispatch_times (trace (throttle t)) = dispatch_times (trace t) @ [now (throttle t)]"
proof -
  define m where "m = math_min (lastRequestTimes t)"
  define s where "s = max 0 (int (requestDelay t) * 1000 - (now t - m))"
  have s0: "0 \<le> s" by (simp add: s_def)
  have st: "throttle t =
      t\<lparr>now := now t + s,
        lastRequestTimes := js_set (filter (\<lambda>x. x \<noteq> m) (lastRequestTimes t) @ [now t + s]),
        trace := trace t @ (if s > 0 then [ThrottleSleep s] else []) @ [Dispatch (now t + s)]\<rparr>"
  proof (cases "s > 0")
    case True
    with assms show ?thesis
      unfolding throttle_def Let_def m_def [symmetric] s_def [symmetric]
      by (simp add: log_event_def sleep_def)
  next
    case False
    with s0 have z: "s = 0" by simp
    from assms show ?thesis
      unfolding throttle_def Let_def m_def [symmetric] s_def [symmetric] z
      by (simp add: log_event_def sleep_def)
  qed
  have ar: "now t + s = max (now t) (m + int (requestDelay t) * 1000)"
    by (simp add: s_def max_def)
  show "now (throttle t) =
           max (now t) (math_min (lastRequestTimes t) + int (requestDelay t) * 1000)"
    unfolding m_def [symmetric] ar [symmetric] by (simp add: st)
  show "lastRequestTimes (throttle t) =
           js_set (filter (\<lambda>x. x \<noteq> math_min (lastRequestTimes t)) (lastRequestTimes t) @
             [now (throttle t)])"
    unfolding m_def [symmetric] by (simp add: st)
  have "dispatch_times (trace t @ (if s > 0 then [ThrottleSleep s] else []) @
          [Dispatch (now t + s)]) = dispatch_times (trace t) @ [now t + s]"
    by (simp add: dispatch_times_def)
  then show "dispatch_times (trace (throttle t)) = dispatch_times (trace t) @ [now (throttle t)]"
    by (simp add: st)
qed

lemma throttle_window:
  assumes d: "0 < requestDelay t" and w: "window_ok a b t"
  shows "a + int (requestDelay t) * 1000 \<le> now (throttle t) \<and> window_ok b (now (throttle t)) (throttle t)"
proof -
  let ?ts = "lastRequestTimes t"
  let ?m = "math_min ?ts"
  from w have ne: "?ts \<noteq> []" and sub: "set ?ts \<subseteq> {a, b}" and ab: "a \<le> b" and bn: "b \<le> now t"
    by (simp_all add: window_ok_def)
  from ne have mem: "?m \<in> set ?ts" by (simp add: math_min_def)
  with sub ab have am: "a \<le> ?m" by auto
  note f = throttle_fields [OF d]
  from f(1) am have g1: "a + int (requestDelay t) * 1000 \<le> now (throttle t)" by simp
  from f(1) bn have g2: "b \<le> now (throttle t)" by simp
  have rest: "x = b" if "x \<in> set ?ts" "x \<noteq> ?m" for x
  proof -
    from that(1) have le: "?m \<le> x" by (simp add: math_min_def)
    from that(1) sub have "x = a \<or> x = b" by auto
    with mem sub le that(2) ab show ?thesis by auto
  qed
  have "set (lastRequestTimes (throttle t)) \<subseteq> {b, now (throttle t)}"
    unfolding f(2) js_set_props using rest by auto
  moreover have "lastRequestTimes (throttle t) \<noteq> []"
    unfolding f(2) js_set_props by simp
  ultimately have "window_ok b (now (throttle t)) (throttle t)"
    using g2 by (simp add: window_ok_def)
  with g1 show ?thesis by simp
qed

lemma window_ok_later:
  "window_ok a b t \<Longrightarrow> lastRequestTimes t' = lastRequestTimes t \<Longrightarrow> now t \<le> now t' \<Longrightarrow>
   window_ok a b t'"
  by (simp add: window_ok_def)

lemma spaced_Cons: "a + d \<le> c \<Longrightarrow> spaced d (b # c # r) \<Longrightarrow> spaced d (a # b # c # r)"
  by simp


lemma after_attempt_window:
  "lastRequestTimes (after_attempt a k t) = lastRequestTimes (throttle t)"
  "now (throttle t) \<le> now (after_attempt a k t)"
  "dispatch_times (trace (after_attempt a k t)) = dispatch_times (trace (throttle t))"
proof -
  note fr = sleep_frame log_event_frame dispatch_times_snoc
  show "lastRequestTimes (after_attempt a k t) = lastRequestTimes (throttle t)"
    by (cases "outcome a") (simp_all add: after_attempt_def Let_def initSession_def fr)
  show "now (throttle t) \<le> now (after_attempt a k t)"
    by (cases "outcome a") (simp_all add: after_attempt_def Let_def initSession_def fr)
  show "dispatch_times (trace (after_attempt a k t)) = dispatch_times (trace (throttle t))"
    by (cases "outcome a") (simp_all add: after_attempt_def Let_def initSession_def fr)
qed

lemma get_loop_200:
  assumes "returns_200 (env (maxRetries t - Suc r))"
  shows "\<exists>t'. snd (get_loop env (Suc r) t) = t' \<and>
           lastRequestTimes t' = lastRequestTimes (throttle t) \<and>
           now (throttle t) \<le> now t' \<and> trace t' = trace (throttle t) \<and>
           requestDelay t' = requestDelay (throttle t)"
  using assms
  by (cases "outcome (env (maxRetries t - Suc r))")
     (simp_all add: Let_def returns_200_def sleep_frame)

lemma exhausted_window:
  "lastRequestTimes (snd (exhausted t)) = lastRequestTimes t"
  "now (snd (exhausted t)) = now t"
  "dispatch_times (trace (snd (exhausted t))) = dispatch_times (trace t)"
  "requestDelay (snd (exhausted t)) = requestDelay t"
  by (simp_all add: exhausted_def Let_def log_event_frame dispatch_times_snoc)

lemma get_loop_spacing:
  assumes "0 < requestDelay t" and "window_ok a b t"
  shows "\<exists>ds. dispatch_times (trace (snd (get_loop env r t))) = dispatch_times (trace t) @ ds \<and>
     spaced (int (requestDelay t) * 1000) (a # b # ds) \<and>
     window_ok (last (butlast (a # b # ds))) (last (a # b # ds)) (snd (get_loop env r t)) \<and>
     requestDelay (snd (get_loop env r t)) = requestDelay t"
  using assms
proof (induction r arbitrary: t a b)
  case 0
  have "window_ok a b (snd (exhausted t))"
    using "0.prems"(2) by (rule window_ok_later) (simp_all add: exhausted_window)
  then show ?case
    by (intro exI [of _ "[]"]) (simp add: exhausted_window)
next
  case (Suc r)
  let ?D = "int (requestDelay t) * 1000"
  let ?d = "now (throttle t)"
  let ?k = "maxRetries t - Suc r"
  from throttle_window [OF Suc.prems] have
    ad: "a + ?D \<le> ?d" and w: "window_ok b ?d (throttle t)" by simp_all
  note f = throttle_fields [OF Suc.prems(1)]
  have rd: "requestDelay (throttle t) = requestDelay t" by (rule throttle_frame(2))
  show ?case
  proof (cases "returns_200 (env ?k)")
    case True
    from get_loop_200 [of env t r, OF True] obtain t' where
      t': "snd (get_loop env (Suc r) t) = t'" "lastRequestTimes t' = lastRequestTimes (throttle t)"
        "now (throttle t) \<le> now t'" "trace t' = trace (throttle t)"
        "requestDelay t' = requestDelay (throttle t)" by blast
    have "window_ok b ?d t'" using w t'(2,3) by (rule window_ok_later)
    then show ?thesis
      unfolding t'(1)
      by (intro exI [of _ "[?d]"]) (simp add: t'(4,5) f(3) ad rd)
  next
    case False
    let ?t1 = "after_attempt (env ?k) ?k t"
    have step: "get_loop env (Suc r) t = get_loop env r ?t1"
      using False by (rule get_loop_step [of env t r])
    have w1: "window_ok b ?d ?t1"
      using w after_attempt_window(1,2) by (rule window_ok_later)
    have d1: "0 < requestDelay ?t1" using Suc.prems(1) by (simp add: after_attempt_frame)
    from Suc.IH [OF d1 w1] obtain ds where
      i1: "dispatch_times (trace (snd (get_loop env r ?t1))) = dispatch_times (trace ?t1) @ ds" and
      i2: "spaced (int (requestDelay ?t1) * 1000) (b # ?d # ds)" and
      i3: "window_ok (last (butlast (b # ?d # ds))) (last (b # ?d # ds))
             (snd (get_loop env r ?t1))" and
      i4: "requestDelay (snd (get_loop env r ?t1)) = requestDelay ?t1" by blast
    have tr: "dispatch_times (trace ?t1) = dispatch_times (trace t) @ [?d]"
      by (simp add: after_attempt_window(3) f(3))
    from i2 ad have sp: "spaced ?D (a # b # ?d # ds)"
      by (simp add: after_attempt_frame)
    from i3 have wl: "window_ok (last (butlast (a # b # ?d # ds))) (last (a # b # ?d # ds))
             (snd (get_loop env r ?t1))" by simp
    show ?thesis
      unfolding step
      using i1 sp wl i4
      by (intro exI [of _ "?d # ds"]) (simp add: tr after_attempt_frame)
  qed
qed


lemma rejected_run:
  "dispatch_times (trace (snd (get (always_rejects 100) (new_transport 5 4 1000000)))) =
     [1000000, 1000100, 1005000, 1005100]"
  by code_simp

lemma new_transport_window: "1 \<le> clock \<Longrightarrow> window_ok 0 1 (new_transport delay retries clock)"
  by (simp add: window_ok_def new_transport_def)

text \<open>
  Claim C5, as the code has it. With a positive request delay, each pass through the
  throttle takes the oldest tracked time, waits until the request delay has passed since
  it, and replaces it by the time after the wait. Therefore, when the tracked times are
  among the last two dispatch times \<open>a \<le> b\<close>, every dispatch time of a call of \<open>_get\<close> is
  at least the request delay after the dispatch time two places before it (with \<open>a\<close> and
  \<open>b\<close> in front), and the same holds again of the state that the call leaves. A
  transport as constructed satisfies this with \<open>a = 0\<close> and \<open>b = 1\<close>.
\<close>

theorem throttle_two_apart:
  assumes "0 < requestDelay t" and "window_ok a b t"
  shows "now (throttle t) =
           max (now t) (math_min (lastRequestTimes t) + int (requestDelay t) * 1000)
       \<and> lastRequestTimes (throttle t) =
           js_set (filter (\<lambda>x. x \<noteq> math_min (lastRequestTimes t)) (lastRequestTimes t) @
             [now (throttle t)])
       \<and> (\<exists>ds. dispatch_times (trace (snd (get env t))) = dispatch_times (trace t) @ ds \<and>
             spaced (int (requestDelay t) * 1000) (a # b # ds) \<and>
             window_ok (last (butlast (a # b # ds))) (last (a # b # ds)) (snd (get env t)))"
proof -
  let ?t = "t\<lparr>responseCodes := []\<rparr>"
  from assms have d: "0 < requestDelay ?t" and w: "window_ok a b ?t"
    by (simp_all add: window_ok_def)
  from get_loop_spacing [OF d w, of env "maxRetries t"] obtain ds where
    "dispatch_times (trace (snd (get_loop env (maxRetries t) ?t))) = dispatch_times (trace ?t) @ ds"
    "spaced (int (requestDelay ?t) * 1000) (a # b # ds)"
    "window_ok (last (butlast (a # b # ds))) (last (a # b # ds))
       (snd (get_loop env (maxRetries t) ?t))" by blast
  then have "\<exists>ds. dispatch_times (trace (snd (get env t))) = dispatch_times (trace t) @ ds \<and>
             spaced (int (requestDelay t) * 1000) (a # b # ds) \<and>
             window_ok (last (butlast (a # b # ds))) (last (a # b # ds)) (snd (get env t))"
    by (intro exI [of _ ds]) (simp add: get_def)
  with throttle_fields(1,2) [OF assms(1)] show ?thesis by (intro conjI)
qed

theorem throttle_two_apart_witness:
  "window_ok 0 1 (new_transport 5 4 1000000)
   \<and> dispatch_times (trace (snd (get (always_rejects 100) (new_transport 5 4 1000000)))) =
       [1000000, 1000100, 1005000, 1005100]
   \<and> spaced 5000 [0, 1, 1000000, 1000100, 1005000, 1005100]"
proof -
  let ?t = "new_transport 5 4 1000000"
  have d: "0 < requestDelay ?t" by (simp add: new_transport_def)
  have w: "window_ok 0 1 ?t" by (rule new_transport_window) simp
  have m: "requestDelay ?t = 5" "trace ?t = []" by (simp_all add: new_transport_def)
  from throttle_two_apart [OF d w, of "always_rejects 100", THEN conjunct2, THEN conjunct2]
  obtain ds where
    e: "dispatch_times (trace (snd (get (always_rejects 100) ?t))) = dispatch_times (trace ?t) @ ds"
    and sp: "spaced (int (requestDelay ?t) * 1000) (0 # 1 # ds)" by blast
  from e have "ds = [1000000, 1000100, 1005000, 1005100]"
    unfolding rejected_run m by (simp add: dispatch_times_def)
  with sp have "spaced 5000 [0, 1, 1000000, 1000100, 1005000, 1005100]"
    unfolding m by simp
  with w rejected_run show ?thesis by (intro conjI)
qed

text \<open>
  Claim C5, as stated, fails: nothing separates two consecutive dispatches. A new
  transport with a request delay of 5 seconds whose requests are rejected after 100 ms
  each dispatches at 1000000, 1000100, 1005000 and 1005100: the third and the fourth
  dispatch, both made when the two tracked times are real dispatch times, are 100 ms
  apart, less than half the request delay.
\<close>

theorem consecutive_spacing_counterexample:
  "dispatch_times (trace (snd (get (always_rejects 100) (new_transport 5 4 1000000)))) =
     [1000000, 1000100, 1005000, 1005100]
   \<and> \<not> consecutive_apart (5 * 1000 div 2)
       (drop 2 (dispatch_times (trace (snd (get (always_rejects 100)
          (new_transport 5 4 1000000))))))"
  unfolding rejected_run by simp


section \<open>Properties of the response texts\<close>

lemma split_on_nonempty: "split_on sep s \<noteq> []"
  by (induction s) (auto split: list.splits)

lemma split_on_append: "split_on sep (pre @ sep # l) = split_on sep pre @ split_on sep l"
proof (induction pre)
  case Nil
  show ?case by simp
next
  case (Cons c p)
  obtain x xs where x: "split_on sep p = x # xs"
    using split_on_nonempty [of sep p] by (cases "split_on sep p") auto
  with Cons show ?case by simp
qed

lemma js_pop_snoc: "js_pop (xs @ [l]) = Some l"
  by (simp add: js_pop_def)

lemma last_line_after_feed: "sep \<notin> set l \<Longrightarrow> js_pop (split_on sep (pre @ sep # l)) = Some l"
  using js_pop_snoc [of "split_on sep pre" l] by (simp add: split_on_append split_on_absent)

lemma last_line_whole: "sep \<notin> set body \<Longrightarrow> js_pop (split_on sep body) = Some body"
  by (simp add: split_on_absent js_pop_def)

lemma after_first_line_two:
  "10 \<notin> set pre \<Longrightarrow> after_first_line (pre @ 10 # l) = l"
proof -
  assume "10 \<notin> set pre"
  then have "dropWhile (\<lambda>c. c \<noteq> 10) (pre @ 10 # l) = 10 # l"
    by (induction pre) simp_all
  then show ?thesis by (simp add: after_first_line_def)
qed

lemma parseProtectedJson_invalid:
  "status response \<noteq> 200 \<or> contentType_of response \<notin> set validContentTypes \<Longrightarrow>
   parseProtectedJson response = Inl (InvalidResponse (status response) (contentType_of response))"
  by (auto simp: parseProtectedJson_def Let_def)

lemma parseProtectedJson_valid:
  assumes "status response = 200" and "contentType_of response \<in> set validContentTypes"
    and "js_pop (split_on 10 (data response)) = Some l"
  shows "parseProtectedJson response =
           (case JSON_parse l of None \<Rightarrow> Inl FailedToParseJSON | Some v \<Rightarrow> Inr v)"
  using assms by (simp add: parseProtectedJson_def Let_def)

lemma literal_marker_hd: "\<exists>m. literal_marker = 74 # m"
  by (simp add: literal_marker_def js_def)

lemma match_literal_here_other:
  assumes "c \<noteq> 74"
  shows "match_literal_here (c # cs) = None"
proof -
  from literal_marker_hd obtain m where m: "literal_marker = 74 # m" ..
  have "\<not> starts_with literal_marker (c # cs)"
    using assms unfolding m by (simp add: starts_with_def)
  then show ?thesis by (simp add: match_literal_here_def)
qed

lemma find_literal_skip: "74 \<notin> set pre \<Longrightarrow> find_literal (pre @ s) = find_literal s"
  by (induction pre) (simp_all add: match_literal_here_other)

lemma match_literal_here_found:
  assumes "lit \<noteq> []" and "39 \<notin> set lit"
  shows "match_literal_here (literal_marker @ lit @ [39, 41] @ post) = Some lit"
proof -
  have t: "takeWhile (\<lambda>c. c \<noteq> 39) (lit @ 39 # 41 # post) = lit"
    using assms(2) by (induction lit) simp_all
  have d: "dropWhile (\<lambda>c. c \<noteq> 39) (lit @ 39 # 41 # post) = 39 # 41 # post"
    using assms(2) by (induction lit) simp_all
  show ?thesis
    using assms(1) by (simp add: match_literal_here_def starts_with_def t d)
qed

lemma find_literal_found:
  assumes "74 \<notin> set pre" and "lit \<noteq> []" and "39 \<notin> set lit"
  shows "find_literal (pre @ literal_marker @ lit @ [39, 41] @ post) = Some lit"
proof -
  from literal_marker_hd obtain m where m: "literal_marker = 74 # m" ..
  have "find_literal (literal_marker @ lit @ [39, 41] @ post) = Some lit"
    using match_literal_here_found [OF assms(2,3), of post] by (simp add: m)
  with find_literal_skip [OF assms(1)] show ?thesis by simp
qed


subsection \<open>Protected JSON\<close>

lemmas json_eval =
  JSON_parse_def js_def skip_ws_def json_ws_def starts_with_def parse_number_def
  parse_digits_def dec_digit_def is_hex_def hex_val_def parse_hex_def

lemma json_response_valid:
  "status (json_response body) = 200"
  "contentType_of (json_response body) \<in> set validContentTypes"
  "data (json_response body) = body"
proof -
  have "contentType_of (json_response body) = js ''application/json''"
    by (simp add: json_response_def contentType_of_def js_def first_part_def trim_def
        toLowerCase_def js_space_def)
  then show "contentType_of (json_response body) \<in> set validContentTypes"
    by (simp add: validContentTypes_def)
qed (simp_all add: json_response_def)

lemma parse_one_two:
  "JSON_parse (js ''[1,2]'') = Some (JArray [JNumber (js ''1''), JNumber (js ''2'')])"
  by (simp add: json_eval
      cong: list.case_cong_weak option.case_cong_weak prod.case_cong_weak)

lemma parse_one_two_lines:
  "JSON_parse (js ''[1,'' @ [10] @ js ''2]'') =
     Some (JArray [JNumber (js ''1''), JNumber (js ''2'')])"
  by (simp add: json_eval
      cong: list.case_cong_weak option.case_cong_weak prod.case_cong_weak)

lemma parse_tail: "JSON_parse (js ''2]'') = None"
  by (simp add: json_eval
      cong: list.case_cong_weak option.case_cong_weak prod.case_cong_weak)

lemma protected_body_lines:
  "protected_body = (js '')]}'' @ [39, 10] @ js ''[1,'') @ 10 # js ''2]''"
  "protected_body = (js '')]}'' @ [39]) @ 10 # (js ''[1,'' @ [10] @ js ''2]'')"
  "10 \<notin> set (js ''2]'')" "10 \<notin> set (js '')]}'' @ [39])"
  by (simp_all add: protected_body_def js_def)

text \<open>
  Claim C1, as the code has it. The parser fails with the invalid-response error unless
  the status is 200 and the content type, cut at the first semicolon, trimmed and in
  lower case, is one of \<open>application/json\<close>, \<open>application/javascript\<close>,
  \<open>text/javascript\<close>. When the validation passes, the result is the JSON value of the
  last line of the body, that is of the text after the last line feed (of the whole body
  when it has no line feed), and the failure to parse it is the parse error. For a body
  of two lines this is the text after the first line.
\<close>

theorem parseProtectedJson_last_line:
  "(status response \<noteq> 200 \<or> contentType_of response \<notin> set validContentTypes \<longrightarrow>
      parseProtectedJson response =
        Inl (InvalidResponse (status response) (contentType_of response)))
   \<and> (status response = 200 \<and> contentType_of response \<in> set validContentTypes \<longrightarrow>
        (\<forall>pre l. data response = pre @ 10 # l \<and> 10 \<notin> set l \<longrightarrow>
           parseProtectedJson response =
             (case JSON_parse l of None \<Rightarrow> Inl FailedToParseJSON | Some v \<Rightarrow> Inr v))
        \<and> (10 \<notin> set (data response) \<longrightarrow>
           parseProtectedJson response =
             (case JSON_parse (data response) of
                None \<Rightarrow> Inl FailedToParseJSON | Some v \<Rightarrow> Inr v)))
   \<and> (\<forall>pre l. 10 \<notin> set pre \<and> 10 \<notin> set l \<longrightarrow> after_first_line (pre @ 10 # l) = l)"
proof (intro conjI allI impI)
  assume "status response \<noteq> 200 \<or> contentType_of response \<notin> set validContentTypes"
  then show "parseProtectedJson response =
        Inl (InvalidResponse (status response) (contentType_of response))"
    by (rule parseProtectedJson_invalid)
next
  fix pre l
  assume v: "status response = 200 \<and> contentType_of response \<in> set validContentTypes"
    and d: "data response = pre @ 10 # l \<and> 10 \<notin> set l"
  from d have "js_pop (split_on 10 (data response)) = Some l"
    by (simp add: last_line_after_feed)
  with v show "parseProtectedJson response =
             (case JSON_parse l of None \<Rightarrow> Inl FailedToParseJSON | Some v \<Rightarrow> Inr v)"
    by (simp add: parseProtectedJson_valid)
next
  assume v: "status response = 200 \<and> contentType_of response \<in> set validContentTypes"
    and d: "10 \<notin> set (data response)"
  from d have "js_pop (split_on 10 (data response)) = Some (data response)"
    by (rule last_line_whole)
  with v show "parseProtectedJson response =
             (case JSON_parse (data response) of
                None \<Rightarrow> Inl FailedToParseJSON | Some v \<Rightarrow> Inr v)"
    by (simp add: parseProtectedJson_valid)
next
  fix pre l :: "nat list"
  assume "10 \<notin> set pre \<and> 10 \<notin> set l"
  then show "after_first_line (pre @ 10 # l) = l" by (simp add: after_first_line_two)
qed

theorem parseProtectedJson_last_line_witness:
  "status (json_response (js '')]}'' @ [39, 10] @ js ''[1,2]'')) = 200
   \<and> contentType_of (json_response (js '')]}'' @ [39, 10] @ js ''[1,2]'')) \<in> set validContentTypes
   \<and> parseProtectedJson (json_response (js '')]}'' @ [39, 10] @ js ''[1,2]''))
       = Inr (JArray [JNumber (js ''1''), JNumber (js ''2'')])"
proof -
  let ?pre = "js '')]}'' @ [39]" and ?l = "js ''[1,2]''"
  let ?r = "json_response (js '')]}'' @ [39, 10] @ js ''[1,2]'')"
  note v = json_response_valid [of "js '')]}'' @ [39, 10] @ js ''[1,2]''"]
  have d: "data ?r = ?pre @ 10 # ?l \<and> 10 \<notin> set ?l"
    by (simp add: json_response_def js_def)
  note p = parse_one_two
  from parseProtectedJson_last_line [of ?r, THEN conjunct2, THEN conjunct1, THEN mp,
      OF conjI [OF v(1,2)], THEN conjunct1, THEN spec, THEN spec, THEN mp, OF d]
  have "parseProtectedJson ?r = Inr (JArray [JNumber (js ''1''), JNumber (js ''2'')])"
    by (simp add: p)
  with v(1,2) show ?thesis by (intro conjI)
qed

text \<open>
  Claim C1, as stated, fails: the parser does not parse what follows the first line. The
  body of three lines passes the validation, and what follows its first line is the JSON
  text of the array of 1 and 2, but the parser reads the last line \<open>2]\<close> alone and
  fails.
\<close>

theorem parseProtectedJson_first_line_counterexample:
  "status (json_response protected_body) = 200
   \<and> contentType_of (json_response protected_body) \<in> set validContentTypes
   \<and> JSON_parse (after_first_line (data (json_response protected_body)))
       = Some (JArray [JNumber (js ''1''), JNumber (js ''2'')])
   \<and> parseProtectedJson (json_response protected_body) = Inl FailedToParseJSON"
proof -
  note v = json_response_valid [of protected_body]
  have "after_first_line protected_body = js ''[1,'' @ [10] @ js ''2]''"
    by (subst protected_body_lines(2)) (rule after_first_line_two [OF protected_body_lines(4)])
  then have a: "JSON_parse (after_first_line (data (json_response protected_body)))
       = Some (JArray [JNumber (js ''1''), JNumber (js ''2'')])"
    by (simp only: v(3) parse_one_two_lines)
  have "js_pop (split_on 10 (data (json_response protected_body))) = Some (js ''2]'')"
    unfolding v(3)
    by (subst protected_body_lines(1)) (rule last_line_after_feed [OF protected_body_lines(3)])
  from parseProtectedJson_valid [OF v(1,2) this]
  have b: "parseProtectedJson (json_response protected_body) = Inl FailedToParseJSON"
    by (simp add: parse_tail)
  from v(1,2) a b show ?thesis by (intro conjI)
qed


subsection \<open>Embedded data\<close>

lemma no_literal_example: "find_literal (js ''<html></html>'') = None"
  by (simp add: js_def match_literal_here_def starts_with_def literal_marker_def)

lemma decode_example:
  "decodeEscapeText (js ''{'' @ [92] @ js ''x22type'' @ [92] @ js ''x22:'' @ [92] @
      js ''x22fe_line_chart'' @ [92] @ js ''x22}'') =
   js ''{'' @ [34] @ js ''type'' @ [34] @ js '':'' @ [34] @ js ''fe_line_chart'' @ [34] @ js ''}''"
  by (simp add: decodeEscapeText_def js_def is_hex_def hex_val_def parse_hex_def
      line_terminator_def)

lemma parse_example:
  "JSON_parse (js ''{'' @ [34] @ js ''type'' @ [34] @ js '':'' @ [34] @ js ''fe_line_chart'' @
      [34] @ js ''}'') =
   Some (JObject [(js ''type'', JString (js ''fe_line_chart''))])"
  by (simp add: json_eval
      cong: list.case_cong_weak option.case_cong_weak prod.case_cong_weak)

text \<open>
  Claim C2, as the code has it. When the page holds no literal of the embedded
  \<open>JSON.parse('...')\<close> call, the extraction writes a warning to the console and returns
  \<open>null\<close>; it raises nothing. When it holds one, the first literal is taken, its hex
  escapes are replaced, then its unicode escapes, then the remaining backslash escapes,
  and the result is parsed as JSON (a text that is no JSON is a syntax error). The first
  literal is the one found: in a page that is a prefix without the letter \<open>J\<close>, the call
  with a non-empty literal without a quote, and anything after, that literal is extracted.
\<close>

theorem extractEmbeddedData_first_literal:
  "(find_literal text = None \<longrightarrow>
      extractEmbeddedData text = (Inr None, [''Failed to extract JSON data'']))
   \<and> (\<forall>lit. find_literal text = Some lit \<longrightarrow>
        extractEmbeddedData text =
          (case JSON_parse (replace_escape (replace_unicode (replace_hex lit))) of
             None \<Rightarrow> (Inl SyntaxError, [])
           | Some v \<Rightarrow> (Inr (Some v), [])))
   \<and> (\<forall>pre lit post. text = pre @ literal_marker @ lit @ [39, 41] @ post \<and>
        74 \<notin> set pre \<and> lit \<noteq> [] \<and> 39 \<notin> set lit \<longrightarrow> find_literal text = Some lit)"
proof (intro conjI allI impI)
  assume "find_literal text = None"
  then show "extractEmbeddedData text = (Inr None, [''Failed to extract JSON data''])"
    by (simp add: extractEmbeddedData_def)
next
  fix lit
  assume "find_literal text = Some lit"
  then show "extractEmbeddedData text =
          (case JSON_parse (replace_escape (replace_unicode (replace_hex lit))) of
             None \<Rightarrow> (Inl SyntaxError, [])
           | Some v \<Rightarrow> (Inr (Some v), []))"
    by (simp add: extractEmbeddedData_def decodeEscapeText_def)
next
  fix pre lit post
  assume h: "text = pre @ literal_marker @ lit @ [39, 41] @ post \<and>
        74 \<notin> set pre \<and> lit \<noteq> [] \<and> 39 \<notin> set lit"
  then have t: "text = pre @ literal_marker @ lit @ [39, 41] @ post" by (rule conjunct1)
  from h have "74 \<notin> set pre" "lit \<noteq> []" "39 \<notin> set lit" by simp_all
  then show "find_literal text = Some lit"
    unfolding t by (rule find_literal_found)
qed

theorem extractEmbeddedData_first_literal_witness:
  "extractEmbeddedData explore_body =
     (Inr (Some (JObject [(js ''type'', JString (js ''fe_line_chart''))])), [])"
proof -
  let ?lit = "js ''{'' @ [92] @ js ''x22type'' @ [92] @ js ''x22:'' @ [92] @
      js ''x22fe_line_chart'' @ [92] @ js ''x22}''"
  have h: "explore_body = js ''var t = '' @ literal_marker @ ?lit @ [39, 41] @ js '';'' \<and>
      74 \<notin> set (js ''var t = '') \<and> ?lit \<noteq> [] \<and> 39 \<notin> set ?lit"
    by (simp add: explore_body_def js_def)
  note t = extractEmbeddedData_first_literal [of explore_body]
  from t [THEN conjunct2, THEN conjunct2, THEN spec, THEN spec, THEN spec, THEN mp, OF h]
  have f: "find_literal explore_body = Some ?lit" .
  from t [THEN conjunct2, THEN conjunct1, THEN spec, THEN mp, OF f]
  have "extractEmbeddedData explore_body =
          (case JSON_parse (decodeEscapeText ?lit) of
             None \<Rightarrow> (Inl SyntaxError, [])
           | Some v \<Rightarrow> (Inr (Some v), []))"
    by (simp only: decodeEscapeText_def)
  then show ?thesis
    unfolding decode_example parse_example by simp
qed

text \<open>
  Claim C2, as stated, fails: on a page without a literal the extraction does not fail.
  It returns \<open>null\<close> after the warning.
\<close>

theorem extractEmbeddedData_no_literal_counterexample:
  "extractEmbeddedData (js ''<html></html>'') = (Inr None, [''Failed to extract JSON data''])"
  by (simp add: extractEmbeddedData_def no_literal_example)

end
